theory Spec2Isabelle
  imports Main "HOL-Library.Word" "HOL-Library.Product_Lexorder" "HOL-Library.List_Lexorder"
    "HOL-Library.Option_ord" "HOL-Library.Char_ord"
begin

section \<open>Python values and exceptions\<close>

text \<open>
  The exceptions that the modelled functions can raise. A function that can raise returns
  a sum: \<open>Inl e\<close> is the exception \<open>e\<close> leaving the function, \<open>Inr v\<close> the value returned.
\<close>

datatype exn = KeyError | ValueError | TypeError | AttributeError | UnicodeDecodeError
  | UnicodeEncodeError | OSError | UnpicklingError

text \<open>
  The numbers stored in the \<open>distances\<close> dictionary of \<open>HPV_GetShortestPath\<close>: a Python
  integer, or \<open>float('inf')\<close>. Python compares an integer with the infinite float exactly.
\<close>

datatype pynum = PyInt int | PyInf

fun num_lt :: "int \<Rightarrow> pynum \<Rightarrow> bool" where
  "num_lt x (PyInt y) = (x < y)"
| "num_lt x PyInf = True"

fun num_gt :: "int \<Rightarrow> pynum \<Rightarrow> bool" where
  "num_gt x (PyInt y) = (x > y)"
| "num_gt x PyInf = False"

section \<open>The path engine: \<open>HPV_GetShortestPath\<close> (HighPowerVehicle.py)\<close>

text \<open>
  The argument \<open>map\<close> is a dictionary from pairs of nodes to weights; the function only
  iterates over its items, so it is modelled by the list of its items in iteration order.
  Nodes are any values with a total order (the heap compares them when two entries have the
  same distance); weights are Python integers.
\<close>

type_synonym 'n entry = "int \<times> 'n \<times> 'n list"
type_synonym 'n weights = "(('n \<times> 'n) \<times> int) list"
type_synonym 'n adjacency = "'n \<rightharpoonup> ('n \<times> int) list"
type_synonym 'n distances = "'n \<rightharpoonup> pynum"

text \<open>
  \<open>heapq\<close>: \<open>heappop\<close> removes and returns the smallest item of the heap. Entries are tuples
  \<open>(distance, node, path)\<close>, compared lexicographically, and two entries that compare equal
  are the same value; so the item returned and the items left do not depend on the layout of
  the heap, and the heap is modelled by the list of its items.
\<close>

definition heappush :: "'a list \<Rightarrow> 'a \<Rightarrow> 'a list" where
  "heappush pq x = x # pq"

definition heappop :: "'a::linorder list \<Rightarrow> 'a \<times> 'a list" where
  "heappop pq = (let x = fold min (tl pq) (hd pq) in (x, remove1 x pq))"

text \<open>The body of the loop over \<open>map.items()\<close> that builds \<open>graph\<close> and \<open>nodes\<close>.\<close>

definition add_edge ::
  "('n \<times> 'n) \<times> int \<Rightarrow> 'n adjacency \<times> 'n set \<Rightarrow> 'n adjacency \<times> 'n set" where
  "add_edge item st = (case item of ((u, v), w) \<Rightarrow> case st of (graph, nodes) \<Rightarrow>
     let graph1 = (if graph u = None then graph(u \<mapsto> []) else graph);
         graph2 = (if graph1 v = None then graph1(v \<mapsto> []) else graph1);
         graph3 = graph2(u \<mapsto> the (graph2 u) @ [(v, w)]);
         graph4 = graph3(v \<mapsto> the (graph3 v) @ [(u, w)])
     in (graph4, insert v (insert u nodes)))"

definition build_graph :: "'n weights \<Rightarrow> 'n adjacency \<times> 'n set" where
  "build_graph m = fold add_edge m (Map.empty, {})"

text \<open>\<open>graph.get(current_node, [])\<close>.\<close>

definition graph_get :: "'n adjacency \<Rightarrow> 'n \<Rightarrow> ('n \<times> int) list" where
  "graph_get graph n = (case graph n of None \<Rightarrow> [] | Some ns \<Rightarrow> ns)"

text \<open>
  The inner \<open>for neighbor, weight in ...\<close> loop. \<open>distances[neighbor]\<close> raises \<open>KeyError\<close>
  when the key is missing.
\<close>

fun relax_neighbors :: "int \<Rightarrow> 'n list \<Rightarrow> ('n \<times> int) list \<Rightarrow> 'n entry list \<Rightarrow> 'n distances
    \<Rightarrow> exn + ('n entry list \<times> 'n distances)" where
  "relax_neighbors current_distance path [] pq distances = Inr (pq, distances)"
| "relax_neighbors current_distance path ((neighbor, weight) # rest) pq distances =
    (let distance = current_distance + weight in
     case distances neighbor of
       None \<Rightarrow> Inl KeyError
     | Some dn \<Rightarrow>
         if num_lt distance dn
         then relax_neighbors current_distance path rest
                (heappush pq (distance, neighbor, path @ [neighbor]))
                (distances(neighbor \<mapsto> PyInt distance))
         else relax_neighbors current_distance path rest pq distances)"

text \<open>
  The \<open>while pq\<close> loop. It need not terminate (a negative weight lets the distances fall
  for ever), so it is a partial function: the value \<open>None\<close> is the loop that never returns,
  \<open>Some (Inl e)\<close> an exception, \<open>Some (Inr p)\<close> the list returned.
\<close>

partial_function (option) dijkstra_loop ::
  "'n::linorder adjacency \<Rightarrow> 'n \<Rightarrow> 'n entry list \<Rightarrow> 'n distances \<Rightarrow> (exn + 'n list) option"
where
  "dijkstra_loop graph destination pq distances =
    (if pq = [] then Some (Inr [])
     else case heappop pq of (entry, pq1) \<Rightarrow>
       case entry of (current_distance, current_node, path) \<Rightarrow>
       if current_node = destination then Some (Inr path)
       else case distances current_node of
           None \<Rightarrow> Some (Inl KeyError)
         | Some dc \<Rightarrow>
             if num_gt current_distance dc
             then dijkstra_loop graph destination pq1 distances
             else case relax_neighbors current_distance path
                         (graph_get graph current_node) pq1 distances of
                 Inl e \<Rightarrow> Some (Inl e)
               | Inr (pq2, distances2) \<Rightarrow> dijkstra_loop graph destination pq2 distances2)"

definition HPV_GetShortestPath ::
  "'n::linorder \<Rightarrow> 'n \<Rightarrow> 'n weights \<Rightarrow> (exn + 'n list) option" where
  "HPV_GetShortestPath source destination m =
    (case build_graph m of (graph, nodes) \<Rightarrow>
       let pq = heappush [] (0, source, [source]);
           distances0 = (\<lambda>node. if node \<in> nodes then Some PyInf else None);
           distances = distances0(source \<mapsto> PyInt 0)
       in dijkstra_loop graph destination pq distances)"

text \<open>The topology held by the authority (CloudServer.py).\<close>

definition CloudServer_GlobalGraph :: "char weights" where
  "CloudServer_GlobalGraph =
    [((CHR ''A'', CHR ''D''), 1), ((CHR ''A'', CHR ''B''), 6), ((CHR ''D'', CHR ''B''), 2),
     ((CHR ''D'', CHR ''E''), 1), ((CHR ''E'', CHR ''B''), 2), ((CHR ''E'', CHR ''C''), 5),
     ((CHR ''B'', CHR ''C''), 5)]"

section \<open>Walks, weights and reachability\<close>

text \<open>
  The notions the properties are stated with. Edges are bidirectional: the weights of the
  edges joining \<open>u\<close> and \<open>v\<close> are those stored under \<open>(u, v)\<close> or \<open>(v, u)\<close>. Traversing
  from \<open>u\<close> to \<open>v\<close> costs the smallest of them. A walk is a non-empty sequence of nodes
  whose consecutive elements are joined by an edge.
\<close>

definition edge_weights :: "'n weights \<Rightarrow> 'n \<Rightarrow> 'n \<Rightarrow> int list" where
  "edge_weights m u v =
     map snd (filter (\<lambda>item. fst item = (u, v) \<or> fst item = (v, u)) m)"

definition adjacent :: "'n weights \<Rightarrow> 'n \<Rightarrow> 'n \<Rightarrow> bool" where
  "adjacent m u v = (edge_weights m u v \<noteq> [])"

definition step_weight :: "'n weights \<Rightarrow> 'n \<Rightarrow> 'n \<Rightarrow> int" where
  "step_weight m u v = (let ws = edge_weights m u v in fold min (tl ws) (hd ws))"

fun is_walk :: "'n weights \<Rightarrow> 'n list \<Rightarrow> bool" where
  "is_walk m [] = False"
| "is_walk m [x] = True"
| "is_walk m (x # y # rest) = (adjacent m x y \<and> is_walk m (y # rest))"

fun path_weight :: "'n weights \<Rightarrow> 'n list \<Rightarrow> int" where
  "path_weight m (x # y # rest) = step_weight m x y + path_weight m (y # rest)"
| "path_weight m [x] = 0"
| "path_weight m [] = 0"

definition walk_between :: "'n weights \<Rightarrow> 'n \<Rightarrow> 'n \<Rightarrow> 'n list \<Rightarrow> bool" where
  "walk_between m s d p = (is_walk m p \<and> hd p = s \<and> last p = d)"

definition reachable :: "'n weights \<Rightarrow> 'n \<Rightarrow> 'n \<Rightarrow> bool" where
  "reachable m s d = (\<exists>p. walk_between m s d p)"

definition nonneg_weights :: "'n weights \<Rightarrow> bool" where
  "nonneg_weights m = list_all (\<lambda>item. 0 \<le> snd item) m"

definition nodes_of :: "'n weights \<Rightarrow> 'n set" where
  "nodes_of m = fst ` fst ` set m \<union> snd ` fst ` set m"

definition min_distance_is :: "'n weights \<Rightarrow> 'n \<Rightarrow> 'n \<Rightarrow> int \<Rightarrow> bool" where
  "min_distance_is m s d D \<longleftrightarrow>
     (\<exists>q. walk_between m s d q \<and> path_weight m q = D)
     \<and> (\<forall>q. walk_between m s d q \<longrightarrow> D \<le> path_weight m q)"

section \<open>The invariant of the search\<close>

text \<open>
  The neighbours of a node, as the adjacency lists hold them; the invariant of the
  \<open>while\<close> loop, its form inside the \<open>for\<close> loop, and the measure that shows that the
  loop ends when no weight is negative.
\<close>

definition adj_set :: "'n weights \<Rightarrow> 'n \<Rightarrow> ('n \<times> int) set" where
  "adj_set m u = {(v, w). ((u, v), w) \<in> set m \<or> ((v, u), w) \<in> set m}"

definition entries_ok :: "'n weights \<Rightarrow> 'n \<Rightarrow> 'n entry list \<Rightarrow> 'n distances \<Rightarrow> bool" where
  "entries_ok m s pq dist \<longleftrightarrow>
     (\<forall>c u p. (c, u, p) \<in> set pq \<longrightarrow>
        walk_between m s u p \<and> path_weight m p \<le> c \<and> (\<exists>x. dist u = Some (PyInt x) \<and> x \<le> c))"

definition dist_ok :: "'n weights \<Rightarrow> 'n \<Rightarrow> 'n distances \<Rightarrow> bool" where
  "dist_ok m s dist \<longleftrightarrow>
     dist s = Some (PyInt 0) \<and> dom dist = insert s (nodes_of m)
     \<and> (\<forall>v x. dist v = Some (PyInt x) \<longrightarrow> 0 \<le> x)"

definition node_done :: "'n weights \<Rightarrow> 'n entry list \<Rightarrow> 'n distances \<Rightarrow> 'n \<Rightarrow> bool" where
  "node_done m pq dist v \<longleftrightarrow>
     (\<forall>x. dist v = Some (PyInt x) \<longrightarrow>
        (\<exists>p. (x, v, p) \<in> set pq)
        \<or> (\<forall>v' w. (v', w) \<in> adj_set m v \<longrightarrow> (\<exists>y. dist v' = Some (PyInt y) \<and> y \<le> x + w)))"

definition dest_open :: "'n \<Rightarrow> 'n entry list \<Rightarrow> 'n distances \<Rightarrow> bool" where
  "dest_open d pq dist \<longleftrightarrow> (\<forall>y. dist d = Some (PyInt y) \<longrightarrow> (\<exists>p. (y, d, p) \<in> set pq))"

definition dijkstra_inv ::
  "'n weights \<Rightarrow> 'n \<Rightarrow> 'n \<Rightarrow> 'n entry list \<Rightarrow> 'n distances \<Rightarrow> bool" where
  "dijkstra_inv m s d pq dist \<longleftrightarrow>
     entries_ok m s pq dist \<and> dist_ok m s dist \<and> (\<forall>v. node_done m pq dist v)
     \<and> dest_open d pq dist"

definition relax_inv :: "'n weights \<Rightarrow> 'n \<Rightarrow> 'n \<Rightarrow> 'n \<Rightarrow> int \<Rightarrow> 'n list \<Rightarrow> ('n \<times> int) set
    \<Rightarrow> 'n entry list \<Rightarrow> 'n distances \<Rightarrow> bool" where
  "relax_inv m s d u cd path R pq dist \<longleftrightarrow>
     entries_ok m s pq dist \<and> dist_ok m s dist
     \<and> (\<forall>v. v \<noteq> u \<longrightarrow> node_done m pq dist v) \<and> dest_open d pq dist
     \<and> dist u = Some (PyInt cd) \<and> walk_between m s u path \<and> path_weight m path \<le> cd
     \<and> (\<forall>v w. (v, w) \<in> R \<longrightarrow> (\<exists>y. dist v = Some (PyInt y) \<and> y \<le> cd + w))"

definition node_list :: "'n weights \<Rightarrow> 'n \<Rightarrow> 'n list" where
  "node_list m s = s # map (\<lambda>item. fst (fst item)) m @ map (\<lambda>item. snd (fst item)) m"

definition fin_val :: "'n distances \<Rightarrow> 'n \<Rightarrow> nat" where
  "fin_val dist v = (case dist v of Some (PyInt x) \<Rightarrow> nat x | _ \<Rightarrow> 0)"

definition mu :: "'n weights \<Rightarrow> 'n \<Rightarrow> 'n distances \<Rightarrow> nat \<times> nat" where
  "mu m s dist =
     (length (filter (\<lambda>v. dist v = Some PyInf) (node_list m s)),
      sum_list (map (fin_val dist) (node_list m s)))"

definition shortest_walk :: "'n weights \<Rightarrow> 'n \<Rightarrow> 'n \<Rightarrow> 'n list \<Rightarrow> bool" where
  "shortest_walk m s d p \<longleftrightarrow>
     walk_between m s d p \<and> (\<forall>q. walk_between m s d q \<longrightarrow> path_weight m p \<le> path_weight m q)"

definition loop_post :: "'n weights \<Rightarrow> 'n \<Rightarrow> 'n \<Rightarrow> 'n list \<Rightarrow> bool" where
  "loop_post m s d r \<longleftrightarrow> (r = [] \<and> \<not> reachable m s d) \<or> shortest_walk m s d r"

section \<open>Bytes and text\<close>

text \<open>
  A \<open>bytes\<close> object is a list of 8-bit words, a \<open>str\<close> the list of its code points.
  \<open>bytes.decode('utf-8')\<close> accepts the well-formed UTF-8 sequences only (no overlong
  form, no surrogate, nothing above U+10FFFF) and raises \<open>UnicodeDecodeError\<close> otherwise;
  \<open>str.encode('utf-8')\<close> raises \<open>UnicodeEncodeError\<close> on a lone surrogate. The functions
  \<open>utf8_dec\<close> and \<open>utf8_enc\<close> work on the numeric values of the bytes.
\<close>

type_synonym byte = "8 word"
type_synonym pystr = "nat list"

definition prepend :: "'a \<Rightarrow> exn + 'a list \<Rightarrow> exn + 'a list" where
  "prepend c r = (case r of Inl e \<Rightarrow> Inl e | Inr cs \<Rightarrow> Inr (c # cs))"

definition cont :: "nat \<Rightarrow> bool" where
  "cont b = (0x80 \<le> b \<and> b \<le> 0xBF)"

fun utf8_dec :: "nat list \<Rightarrow> exn + nat list" where
  "utf8_dec [] = Inr []"
| "utf8_dec (b0 # rest) =
    (if b0 < 0x80 then prepend b0 (utf8_dec rest)
     else if 0xC2 \<le> b0 \<and> b0 \<le> 0xDF then
       (case rest of
          b1 # rest1 \<Rightarrow>
            if cont b1
            then prepend ((b0 - 0xC0) * 64 + (b1 - 0x80)) (utf8_dec rest1)
            else Inl UnicodeDecodeError
        | _ \<Rightarrow> Inl UnicodeDecodeError)
     else if 0xE0 \<le> b0 \<and> b0 \<le> 0xEF then
       (case rest of
          b1 # b2 # rest2 \<Rightarrow>
            if (if b0 = 0xE0 then 0xA0 else 0x80) \<le> b1
               \<and> b1 \<le> (if b0 = 0xED then 0x9F else 0xBF) \<and> cont b2
            then prepend (((b0 - 0xE0) * 64 + (b1 - 0x80)) * 64 + (b2 - 0x80)) (utf8_dec rest2)
            else Inl UnicodeDecodeError
        | _ \<Rightarrow> Inl UnicodeDecodeError)
     else if 0xF0 \<le> b0 \<and> b0 \<le> 0xF4 then
       (case rest of
          b1 # b2 # b3 # rest3 \<Rightarrow>
            if (if b0 = 0xF0 then 0x90 else 0x80) \<le> b1
               \<and> b1 \<le> (if b0 = 0xF4 then 0x8F else 0xBF) \<and> cont b2 \<and> cont b3
            then prepend ((((b0 - 0xF0) * 64 + (b1 - 0x80)) * 64 + (b2 - 0x80)) * 64
                          + (b3 - 0x80)) (utf8_dec rest3)
            else Inl UnicodeDecodeError
        | _ \<Rightarrow> Inl UnicodeDecodeError)
     else Inl UnicodeDecodeError)"

definition utf8_enc_char :: "nat \<Rightarrow> exn + nat list" where
  "utf8_enc_char c =
    (if c < 0x80 then Inr [c]
     else if c < 0x800 then Inr [0xC0 + c div 64, 0x80 + c mod 64]
     else if c < 0x10000 then
       (if 0xD800 \<le> c \<and> c \<le> 0xDFFF then Inl UnicodeEncodeError
        else Inr [0xE0 + c div 4096, 0x80 + c div 64 mod 64, 0x80 + c mod 64])
     else if c < 0x110000 then
       Inr [0xF0 + c div 262144, 0x80 + c div 4096 mod 64, 0x80 + c div 64 mod 64,
            0x80 + c mod 64]
     else Inl UnicodeEncodeError)"

fun utf8_enc :: "nat list \<Rightarrow> exn + nat list" where
  "utf8_enc [] = Inr []"
| "utf8_enc (c # cs) =
    (case utf8_enc_char c of
       Inl e \<Rightarrow> Inl e
     | Inr bs \<Rightarrow> (case utf8_enc cs of Inl e \<Rightarrow> Inl e | Inr rest \<Rightarrow> Inr (bs @ rest)))"

definition decode_utf8 :: "byte list \<Rightarrow> exn + pystr" where
  "decode_utf8 data = utf8_dec (map unat data)"

definition encode_utf8 :: "pystr \<Rightarrow> exn + byte list" where
  "encode_utf8 s = (case utf8_enc s of Inl e \<Rightarrow> Inl e | Inr bs \<Rightarrow> Inr (map of_nat bs))"

text \<open>\<open>bytes(xs)\<close> for a list of integers: \<open>ValueError\<close> unless each is in \<open>range(256)\<close>.\<close>

definition py_bytes :: "int list \<Rightarrow> exn + byte list" where
  "py_bytes xs = (if list_all (\<lambda>x. 0 \<le> x \<and> x < 256) xs then Inr (map of_int xs)
                  else Inl ValueError)"

section \<open>Sockets and \<open>try\<close> blocks\<close>

text \<open>
  A socket call either raises or returns. The outcome of a call that the environment
  decides (what \<open>recv\<close> returns, whether \<open>connect\<close> or \<open>sendall\<close> raises) is an argument
  of the function that makes the call: \<open>Inl e\<close> or \<open>Some e\<close> is the exception raised. On
  a connection that works, \<open>recv(bufsize)\<close> returns the bytes the peer has sent, at most
  \<open>bufsize\<close> of them, and \<open>send\<close> and \<open>sendall\<close> transmit their whole argument.
  \<open>socket.timeout\<close>, \<open>socket.error\<close>, \<open>ConnectionRefusedError\<close> and \<open>BrokenPipeError\<close>
  are \<open>OSError\<close> or subclasses of it, and are the one value \<open>OSError\<close> here. An \<open>except\<close>
  clause that does not list the exception lets it through.
\<close>

definition except_OSError :: "exn \<Rightarrow> 'a \<Rightarrow> exn + 'a" where
  "except_OSError e v = (if e = OSError then Inr v else Inl e)"

definition sock_recv :: "nat \<Rightarrow> byte list \<Rightarrow> byte list" where
  "sock_recv bufsize pending = take bufsize pending"

section \<open>The authority's handshake: \<open>CloudServer_WaitForConnection\<close> (CloudServer.py)\<close>

text \<open>
  The result is the exception that leaves the function, or the bytes sent back to the peer
  together with whether the function returns the socket (\<open>True\<close>) or \<open>(None, None)\<close>.
\<close>

definition CloudServer_WaitForConnection ::
  "(exn + byte list) \<Rightarrow> exn option \<Rightarrow> exn + (byte list \<times> bool)" where
  "CloudServer_WaitForConnection recv_result send_result =
    (case recv_result of
       Inl e \<Rightarrow> except_OSError e ([], False)
     | Inr data \<Rightarrow>
        (case decode_utf8 data of
           Inl e \<Rightarrow> except_OSError e ([], False)
         | Inr testMessage \<Rightarrow>
            (case encode_utf8 testMessage of
               Inl e \<Rightarrow> except_OSError e ([], False)
             | Inr reply \<Rightarrow>
                (case send_result of
                   Some e \<Rightarrow> except_OSError e ([], False)
                 | None \<Rightarrow> Inr (reply, True)))))"

section \<open>The authority's session: \<open>CloudServer_SendWeights\<close> and \<open>main\<close> (CloudServer.py)\<close>

text \<open>
  \<open>pickle.dumps\<close> and \<open>pickle.loads\<close> are library functions: they are the arguments
  \<open>dumps\<close> and \<open>loads\<close>. \<open>CloudServer_SendWeights\<close> returns the bytes it has sent; the
  graph it serialises is an argument.
\<close>

definition CloudServer_SendWeights ::
  "('g \<Rightarrow> byte list) \<Rightarrow> 'g \<Rightarrow> exn option \<Rightarrow> exn + byte list" where
  "CloudServer_SendWeights dumps graph send_result =
    (let serializedWights = dumps graph in
     case send_result of
       Some e \<Rightarrow> except_OSError e []
     | None \<Rightarrow> Inr serializedWights)"

text \<open>
  One iteration of the authority's \<open>main\<close> for a peer that has sent \<open>probe\<close>: the bytes
  written on the connection. The serialised graph follows the echo at once, on the same
  stream and with nothing between them; nothing is written when the handshake raises.
\<close>

definition CloudServer_session :: "('g \<Rightarrow> byte list) \<Rightarrow> 'g \<Rightarrow> byte list \<Rightarrow> byte list" where
  "CloudServer_session dumps graph probe =
    (case CloudServer_WaitForConnection (Inr (sock_recv 1024 probe)) None of
       Inl e \<Rightarrow> []
     | Inr (echo, ok) \<Rightarrow>
        if ok
        then (case CloudServer_SendWeights dumps graph None of
                Inl e \<Rightarrow> echo
              | Inr serialized \<Rightarrow> echo @ serialized)
        else echo)"

text \<open>
  What the relay's \<open>recv(1024)\<close> returns after it has sent \<open>probe\<close> to the authority,
  when \<open>k\<close> bytes of the authority's stream have arrived at that moment: the stream has
  no message boundary, so the read can end inside the echo, at its end, or inside the
  serialised graph.
\<close>

definition authority_peer ::
  "nat \<Rightarrow> ('g \<Rightarrow> byte list) \<Rightarrow> 'g \<Rightarrow> byte list \<Rightarrow> exn + byte list" where
  "authority_peer k dumps graph probe =
     Inr (sock_recv 1024 (take k (CloudServer_session dumps graph probe)))"

section \<open>The relay: HighPowerVehicle.py\<close>

text \<open>
  A node in the relay is a \<open>str\<close>, or \<open>None\<close> after a request that could not be parsed.
  \<open>HPV_ConnectToCloudServer\<close> returns the socket (\<open>True\<close>) or \<open>None\<close> (\<open>False\<close>); the
  body of its inner \<open>try\<close> block is \<open>connectivity_test\<close>, with the message as an argument.
\<close>

type_synonym node = "pystr option"

definition test_message :: pystr where
  "test_message = map of_char ''Test connection''"

definition connectivity_test :: "pystr \<Rightarrow> (byte list \<Rightarrow> exn + byte list) \<Rightarrow> exn + bool" where
  "connectivity_test message peer =
    (case encode_utf8 message of
       Inl e \<Rightarrow> except_OSError e False
     | Inr probe \<Rightarrow>
        (case peer probe of
           Inl e \<Rightarrow> except_OSError e False
         | Inr data \<Rightarrow>
            (case decode_utf8 data of
               Inl e \<Rightarrow> except_OSError e False
             | Inr response \<Rightarrow> Inr (response = message))))"

definition HPV_ConnectToCloudServer ::
  "exn option \<Rightarrow> (byte list \<Rightarrow> exn + byte list) \<Rightarrow> exn + bool" where
  "HPV_ConnectToCloudServer connect_result peer =
    (case connect_result of
       Some e \<Rightarrow> except_OSError e False
     | None \<Rightarrow> connectivity_test test_message peer)"

definition HPV_ReceiveLpvRequest :: "(exn + byte list) \<Rightarrow> exn + (node \<times> node)" where
  "HPV_ReceiveLpvRequest recv_result =
    (case recv_result of
       Inl e \<Rightarrow> except_OSError e (None, None)
     | Inr received \<Rightarrow>
        (case decode_utf8 received of
           Inl e \<Rightarrow> except_OSError e (None, None)
         | Inr data \<Rightarrow>
            if length data \<noteq> 2 then Inr (None, None)
            else Inr (Some [data ! 0], Some [data ! 1])))"


text \<open>
  \<open>HPV_ReceiveWeights\<close>: the argument is the outcome of \<open>recv(1024)\<close> followed by
  \<open>pickle.loads\<close>. The handler prints \<open>e.strerror\<close>, which an \<open>OSError\<close> has and an
  \<open>UnpicklingError\<close> has not: for the latter the handler itself raises \<open>AttributeError\<close>.
\<close>

definition HPV_ReceiveWeights :: "(exn + 'w) \<Rightarrow> exn + 'w option" where
  "HPV_ReceiveWeights loads_result =
    (case loads_result of
       Inl e \<Rightarrow>
         if e = OSError then Inr None
         else if e = UnpicklingError then Inl AttributeError
         else Inl e
     | Inr pathsWeights \<Rightarrow> Inr (Some pathsWeights))"

text \<open>
  \<open>"".join(items)\<close> raises \<open>TypeError\<close> when an item is not a \<open>str\<close>.
  \<open>HPV_SendShortestPath\<close> returns the list of the payloads it has sent with \<open>sendall\<close>.
\<close>

definition py_join :: "node list \<Rightarrow> exn + pystr" where
  "py_join items = (if list_all (\<lambda>x. x \<noteq> None) items then Inr (concat (map the items))
                    else Inl TypeError)"

definition except_send :: "exn \<Rightarrow> exn + byte list list" where
  "except_send e = (if e = OSError \<or> e = TypeError then Inr [] else Inl e)"

definition sendall :: "exn option \<Rightarrow> byte list \<Rightarrow> exn + byte list list" where
  "sendall send_result payload = (case send_result of Some e \<Rightarrow> Inl e | None \<Rightarrow> Inr [payload])"

definition HPV_SendShortestPath :: "exn option \<Rightarrow> node list option \<Rightarrow> exn + byte list list" where
  "HPV_SendShortestPath send_result shortestPath =
    (case shortestPath of
       None \<Rightarrow>
        (case py_bytes [- 1] of
           Inl e \<Rightarrow> except_send e
         | Inr code \<Rightarrow>
            (case sendall send_result code of Inl e \<Rightarrow> except_send e | Inr sent \<Rightarrow> Inr sent))
     | Some path \<Rightarrow>
        (case py_join path of
           Inl e \<Rightarrow> except_send e
         | Inr path_string \<Rightarrow>
            (case encode_utf8 path_string of
               Inl e \<Rightarrow> except_send e
             | Inr payload \<Rightarrow>
                (case sendall send_result payload of
                   Inl e \<Rightarrow> except_send e
                 | Inr sent \<Rightarrow> Inr sent))))"

text \<open>
  One iteration of the \<open>while True\<close> loop of \<open>main\<close>, for an LPV socket that \<open>accept\<close>
  has returned. The environment gives the outcome of each socket call; the result is the
  list of what the iteration has done on the network, and how it ends. \<open>close()\<close> on
  \<open>None\<close> and \<open>None.items()\<close> raise \<open>AttributeError\<close>.
\<close>

record relay_env =
  lpv_recv :: "exn + byte list"
  lpv_send :: "exn option"
  cloud_connect :: "exn option"
  cloud_peer :: "byte list \<Rightarrow> exn + byte list"
  cloud_weights :: "exn + node weights"

datatype event = CloudConnected | SentToLpv "byte list" | CloudClosed | LpvClosed

datatype outcome = Completed | Uncaught exn | Hangs

definition main_iteration :: "relay_env \<Rightarrow> event list \<times> outcome" where
  "main_iteration env =
    (case HPV_ReceiveLpvRequest (lpv_recv env) of
       Inl e \<Rightarrow> ([], Uncaught e)
     | Inr (source, destination) \<Rightarrow>
        (let opened = (if cloud_connect env = None then [CloudConnected] else []) in
         case HPV_ConnectToCloudServer (cloud_connect env) (cloud_peer env) of
           Inl e \<Rightarrow> (opened, Uncaught e)
         | Inr False \<Rightarrow> (opened, Uncaught AttributeError)
         | Inr True \<Rightarrow>
            (case HPV_ReceiveWeights (cloud_weights env) of
               Inl e \<Rightarrow> (opened, Uncaught e)
             | Inr None \<Rightarrow> (opened, Uncaught AttributeError)
             | Inr (Some receivedWeights) \<Rightarrow>
                (case HPV_GetShortestPath source destination receivedWeights of
                   None \<Rightarrow> (opened, Hangs)
                 | Some (Inl e) \<Rightarrow> (opened, Uncaught e)
                 | Some (Inr shortestPath) \<Rightarrow>
                    (case HPV_SendShortestPath (lpv_send env) (Some shortestPath) of
                       Inl e \<Rightarrow> (opened, Uncaught e)
                     | Inr sent \<Rightarrow>
                        (opened @ map SentToLpv sent @ [CloudClosed, LpvClosed],
                         Completed))))))"

text \<open>
  The dictionary that the relay gets from the authority, the request bytes of a client,
  and the environment of a run in which every socket call succeeds, the relay's read
  after the probe returns the echo and nothing of what follows it, and the graph is
  received and deserialised.
\<close>

definition received_graph :: "node weights" where
  "received_graph =
     map (\<lambda>item. ((Some [of_char (fst (fst item))], Some [of_char (snd (fst item))]), snd item))
       CloudServer_GlobalGraph"

definition ascii :: "string \<Rightarrow> byte list" where
  "ascii s = map (\<lambda>c. of_nat (of_char c)) s"

definition working_env :: "byte list \<Rightarrow> relay_env" where
  "working_env request =
     \<lparr>lpv_recv = Inr (sock_recv 2 request), lpv_send = None, cloud_connect = None,
      cloud_peer = (\<lambda>probe. Inr probe), cloud_weights = Inr received_graph\<rparr>"


section \<open>Queries whose source is their destination\<close>

lemma first_pop_returns:
  "dijkstra_loop graph s [(0, s, [s])] distances = Some (Inr [s])"
  by (subst dijkstra_loop.simps) (simp add: heappop_def)

lemma same_node_query: "HPV_GetShortestPath s s m = Some (Inr [s])"
  by (simp add: HPV_GetShortestPath_def heappush_def first_pop_returns split: prod.split)

text \<open>
  Claim C6. For every graph map and every node \<open>s\<close> that is an endpoint of one of its edges,
  \<open>HPV_GetShortestPath(s, s, map)\<close> returns the single-node sequence \<open>[s]\<close>, and the total
  weight traversed along \<open>[s]\<close> is 0.
\<close>

theorem C6_source_is_destination:
  "s \<in> nodes_of m \<Longrightarrow>
     HPV_GetShortestPath s s m = Some (Inr [s]) \<and> path_weight m [s] = 0"
  by (simp add: same_node_query)

theorem C6_source_is_destination_witness:
  "CHR ''A'' \<in> nodes_of CloudServer_GlobalGraph \<and>
   HPV_GetShortestPath (CHR ''A'') (CHR ''A'') CloudServer_GlobalGraph = Some (Inr ''A'') \<and>
   path_weight CloudServer_GlobalGraph ''A'' = 0"
proof -
  have h: "CHR ''A'' \<in> nodes_of CloudServer_GlobalGraph"
    by (simp add: nodes_of_def CloudServer_GlobalGraph_def)
  show ?thesis
    using h C6_source_is_destination [OF h] by simp
qed

text \<open>
  Claim C10. For every graph map and every node \<open>s\<close>, also one that is an endpoint of no
  edge, and whatever the weights are, \<open>HPV_GetShortestPath(s, s, map)\<close> returns \<open>[s]\<close>: the
  first entry popped is the source, and the test against the destination comes before any
  lookup in \<open>distances\<close> or \<open>graph\<close>. So such a query never gives the empty "no path" list.
\<close>

theorem C10_same_node_any_graph:
  "HPV_GetShortestPath s s m = Some (Inr [s]) \<and> HPV_GetShortestPath s s m \<noteq> Some (Inr [])"
  by (simp add: same_node_query)

section \<open>Correctness of the search\<close>

lemma heappop_Min:
  "pq \<noteq> [] \<Longrightarrow> heappop pq = (Min (set pq), remove1 (Min (set pq)) pq)"
proof -
  assume "pq \<noteq> []"
  then obtain x xs where pq: "pq = x # xs" by (cases pq) auto
  have "fold min xs x = Min (set pq)"
    unfolding pq by (rule Min.set_eq_fold [symmetric])
  then show ?thesis by (simp add: heappop_def pq Let_def)
qed

lemma graph_get_add_edge:
  "graph_get (fst (add_edge ((a, b), w) (g, N))) u =
     graph_get g u @ (if u = a then [(b, w)] else []) @ (if u = b then [(a, w)] else [])"
  by (auto simp: add_edge_def graph_get_def Let_def split: option.splits)

lemma nodes_add_edge: "snd (add_edge ((a, b), w) (g, N)) = insert b (insert a N)"
  by (simp add: add_edge_def Let_def)

lemma fold_add_edge:
  "set (graph_get (fst (fold add_edge m (g, N))) u) = set (graph_get g u) \<union> adj_set m u
   \<and> snd (fold add_edge m (g, N)) = N \<union> nodes_of m"
proof (induction m arbitrary: g N)
  case Nil
  show ?case by (simp add: adj_set_def nodes_of_def)
next
  case (Cons item m)
  obtain a b w where item: "item = ((a, b), w)" by (metis surj_pair)
  obtain g1 N1 where st: "add_edge ((a, b), w) (g, N) = (g1, N1)" by (metis surj_pair)
  have g1: "graph_get g1 u =
     graph_get g u @ (if u = a then [(b, w)] else []) @ (if u = b then [(a, w)] else [])"
    using graph_get_add_edge [of a b w g N u] st by simp
  have N1: "N1 = insert b (insert a N)"
    using nodes_add_edge [of a b w g N] st by simp
  show ?case
    using Cons.IH [of g1 N1]
    by (auto simp: item st g1 N1 adj_set_def nodes_of_def)
qed

lemma build_graph_adj: "set (graph_get (fst (build_graph m)) u) = adj_set m u"
  using fold_add_edge [of m Map.empty "{}" u] by (simp add: build_graph_def graph_get_def)

lemma build_graph_nodes: "snd (build_graph m) = nodes_of m"
  using fold_add_edge [of m Map.empty "{}"] by (simp add: build_graph_def)

lemma adj_set_nodes: "(v, w) \<in> adj_set m u \<Longrightarrow> v \<in> nodes_of m \<and> u \<in> nodes_of m"
  by (force simp: adj_set_def nodes_of_def)

lemma adj_set_nonneg: "nonneg_weights m \<Longrightarrow> (v, w) \<in> adj_set m u \<Longrightarrow> 0 \<le> w"
  by (auto simp: adj_set_def nonneg_weights_def list_all_iff)

lemma edge_weights_adj: "w \<in> set (edge_weights m u v) \<longleftrightarrow> (v, w) \<in> adj_set m u"
  by (force simp: edge_weights_def adj_set_def)

lemma step_weight_Min:
  "adjacent m u v \<Longrightarrow> step_weight m u v = Min (set (edge_weights m u v))"
proof -
  assume "adjacent m u v"
  then obtain x xs where ws: "edge_weights m u v = x # xs"
    by (cases "edge_weights m u v") (auto simp: adjacent_def)
  have "fold min xs x = Min (set (x # xs))"
    by (rule Min.set_eq_fold [symmetric])
  then show ?thesis by (simp add: step_weight_def ws)
qed

lemma step_weight_le: "(v, w) \<in> adj_set m u \<Longrightarrow> step_weight m u v \<le> w"
proof -
  assume a: "(v, w) \<in> adj_set m u"
  then have w: "w \<in> set (edge_weights m u v)" by (simp add: edge_weights_adj)
  then have "adjacent m u v" by (auto simp: adjacent_def)
  then show ?thesis using w by (simp add: step_weight_Min)
qed

lemma step_weight_adj: "adjacent m u v \<Longrightarrow> (v, step_weight m u v) \<in> adj_set m u"
proof -
  assume a: "adjacent m u v"
  then have "set (edge_weights m u v) \<noteq> {}" by (simp add: adjacent_def)
  then have "Min (set (edge_weights m u v)) \<in> set (edge_weights m u v)"
    by (intro Min_in) simp_all
  then show ?thesis using a by (simp add: step_weight_Min edge_weights_adj)
qed

lemma adjacent_iff: "adjacent m u v \<longleftrightarrow> (\<exists>w. (v, w) \<in> adj_set m u)"
proof
  assume "adjacent m u v" then show "\<exists>w. (v, w) \<in> adj_set m u"
    by (intro exI) (rule step_weight_adj)
next
  assume "\<exists>w. (v, w) \<in> adj_set m u"
  then obtain w where "w \<in> set (edge_weights m u v)" by (auto simp: edge_weights_adj)
  then show "adjacent m u v" by (auto simp: adjacent_def)
qed

lemma is_walk_snoc:
  "is_walk m (q @ [t]) \<longleftrightarrow> (q = [] \<or> (is_walk m q \<and> adjacent m (last q) t))"
  by (induction m q rule: is_walk.induct) auto

lemma path_weight_snoc:
  "q \<noteq> [] \<Longrightarrow> path_weight m (q @ [t]) = path_weight m q + step_weight m (last q) t"
  by (induction m q rule: path_weight.induct) auto

lemma hd_snoc: "q \<noteq> [] \<Longrightarrow> hd (q @ [t]) = hd q"
  by simp

lemma walk_between_snoc:
  "walk_between m s u p \<Longrightarrow> (v, w) \<in> adj_set m u \<Longrightarrow>
     walk_between m s v (p @ [v]) \<and> path_weight m (p @ [v]) \<le> path_weight m p + w"
proof -
  assume p: "walk_between m s u p" and a: "(v, w) \<in> adj_set m u"
  from p have ne: "p \<noteq> []" by (auto simp: walk_between_def)
  have "adjacent m u v" unfolding adjacent_iff using a by (rule exI)
  then show ?thesis
    using p ne step_weight_le [OF a]
    by (simp add: walk_between_def is_walk_snoc path_weight_snoc)
qed

lemma relax_keep:
  assumes inv: "relax_inv m s d u cd path R pq dist"
    and dn: "dist v = Some dn" and no: "\<not> num_lt (cd + w) dn"
  shows "relax_inv m s d u cd path (insert (v, w) R) pq dist"
proof -
  from no obtain y where "dn = PyInt y" "y \<le> cd + w" by (cases dn) auto
  with dn inv show ?thesis by (auto simp: relax_inv_def)
qed

lemma relax_update:
  assumes inv: "relax_inv m s d u cd path R pq dist"
    and nn: "nonneg_weights m" and adj: "(v, w) \<in> adj_set m u"
    and dn: "dist v = Some dn" and lt: "num_lt (cd + w) dn"
  shows "relax_inv m s d u cd path (insert (v, w) R)
           (heappush pq (cd + w, v, path @ [v])) (dist(v \<mapsto> PyInt (cd + w)))"
proof -
  let ?x = "cd + w"
  let ?pq = "(?x, v, path @ [v]) # pq"
  let ?dist = "dist(v \<mapsto> PyInt ?x)"
  have w0: "0 \<le> w" using nn adj by (rule adj_set_nonneg)
  have E: "entries_ok m s pq dist" and D: "dist_ok m s dist"
    and N: "\<And>v. v \<noteq> u \<Longrightarrow> node_done m pq dist v" and O: "dest_open d pq dist"
    and du: "dist u = Some (PyInt cd)" and wp: "walk_between m s u path"
    and pw: "path_weight m path \<le> cd"
    and R: "\<And>v w. (v, w) \<in> R \<Longrightarrow> \<exists>y. dist v = Some (PyInt y) \<and> y \<le> cd + w"
    using inv by (auto simp: relax_inv_def)
  have cd0: "0 \<le> cd" using D du by (auto simp: dist_ok_def)
  have below: "\<And>y. dist v = Some (PyInt y) \<Longrightarrow> ?x < y"
    using dn lt by auto
  have vu: "v \<noteq> u" using below [of cd] du w0 by auto
  have vs: "v \<noteq> s" using below [of 0] D cd0 w0 by (auto simp: dist_ok_def)
  have mono: "\<And>t y. dist t = Some (PyInt y) \<Longrightarrow> \<exists>y'. ?dist t = Some (PyInt y') \<and> y' \<le> y"
    using below by (auto simp: less_imp_le)
  have new: "walk_between m s v (path @ [v]) \<and> path_weight m (path @ [v]) \<le> ?x"
    using walk_between_snoc [OF wp adj] pw by auto
  have E': "entries_ok m s ?pq ?dist"
    unfolding entries_ok_def
  proof (intro allI impI)
    fix c t p assume "(c, t, p) \<in> set ?pq"
    then consider "c = ?x" "t = v" "p = path @ [v]" | "(c, t, p) \<in> set pq" by auto
    then show "walk_between m s t p \<and> path_weight m p \<le> c
        \<and> (\<exists>x. ?dist t = Some (PyInt x) \<and> x \<le> c)"
    proof cases
      case 1 then show ?thesis using new by simp
    next
      case 2
      then obtain x where x: "walk_between m s t p" "path_weight m p \<le> c"
        "dist t = Some (PyInt x)" "x \<le> c"
        using E unfolding entries_ok_def by blast
      from mono [OF x(3)] x show ?thesis by auto
    qed
  qed
  have D': "dist_ok m s ?dist"
    using D vs dn cd0 w0 by (auto simp: dist_ok_def)
  have N': "node_done m ?pq ?dist t" if "t \<noteq> u" for t
  proof (cases "t = v")
    case True then show ?thesis by (auto simp: node_done_def)
  next
    case False
    show ?thesis
      unfolding node_done_def
    proof (intro allI impI)
      fix x assume "?dist t = Some (PyInt x)"
      then have dt: "dist t = Some (PyInt x)" using False by simp
      from N [OF that] dt
      consider "\<exists>p. (x, t, p) \<in> set pq"
        | "\<forall>v' w. (v', w) \<in> adj_set m t \<longrightarrow> (\<exists>y. dist v' = Some (PyInt y) \<and> y \<le> x + w)"
        unfolding node_done_def by blast
      then show "(\<exists>p. (x, t, p) \<in> set ?pq)
         \<or> (\<forall>v' w. (v', w) \<in> adj_set m t \<longrightarrow> (\<exists>y. ?dist v' = Some (PyInt y) \<and> y \<le> x + w))"
      proof cases
        case 1 then show ?thesis by auto
      next
        case 2
        have "\<exists>y. ?dist v' = Some (PyInt y) \<and> y \<le> x + w'" if "(v', w') \<in> adj_set m t" for v' w'
        proof -
          from 2 that obtain y where y: "dist v' = Some (PyInt y)" "y \<le> x + w'" by blast
          from mono [OF y(1)] y(2) show ?thesis by auto
        qed
        then show ?thesis by blast
      qed
    qed
  qed
  have O': "dest_open d ?pq ?dist"
    using O by (auto simp: dest_open_def)
  have R': "\<exists>y. ?dist t = Some (PyInt y) \<and> y \<le> cd + w'" if "(t, w') \<in> insert (v, w) R" for t w'
  proof (cases "(t, w') = (v, w)")
    case True then show ?thesis by simp
  next
    case False
    then have "(t, w') \<in> R" using that by auto
    from R [OF this] obtain y where y: "dist t = Some (PyInt y)" "y \<le> cd + w'" by blast
    from mono [OF y(1)] y(2) show ?thesis by auto
  qed
  show ?thesis
    unfolding relax_inv_def heappush_def
    using E' D' N' O' du vu wp pw R' by auto
qed

lemma set_node_list: "set (node_list m s) = insert s (nodes_of m)"
  by (simp add: node_list_def nodes_of_def image_image)

lemma filter_length_mono:
  "(\<And>x. x \<in> set L \<Longrightarrow> P' x \<Longrightarrow> P x) \<Longrightarrow> length (filter P' L) \<le> length (filter P L)"
  by (induction L) auto

lemma filter_length_strict:
  "(\<And>x. x \<in> set L \<Longrightarrow> P' x \<Longrightarrow> P x) \<Longrightarrow> v \<in> set L \<Longrightarrow> P v \<Longrightarrow> \<not> P' v \<Longrightarrow>
     length (filter P' L) < length (filter P L)"
proof (induction L)
  case Nil then show ?case by simp
next
  case (Cons a L)
  have le: "length (filter P' L) \<le> length (filter P L)"
    using Cons.prems(1) by (intro filter_length_mono) auto
  show ?case
  proof (cases "a = v")
    case True then show ?thesis using le Cons.prems by auto
  next
    case False
    then have "v \<in> set L" using Cons.prems by auto
    then have "length (filter P' L) < length (filter P L)"
      using Cons.IH Cons.prems by auto
    then show ?thesis using Cons.prems(1) [of a] by auto
  qed
qed

lemma sum_list_strict:
  fixes f g :: "'a \<Rightarrow> nat"
  shows "(\<And>x. x \<in> set L \<Longrightarrow> f x \<le> g x) \<Longrightarrow> v \<in> set L \<Longrightarrow> f v < g v \<Longrightarrow>
     sum_list (map f L) < sum_list (map g L)"
proof (induction L)
  case Nil then show ?case by simp
next
  case (Cons a L)
  have le: "sum_list (map f L) \<le> sum_list (map g L)"
    using Cons.prems(1) by (intro sum_list_mono) auto
  show ?case
  proof (cases "a = v")
    case True then show ?thesis using le Cons.prems(3) by auto
  next
    case False
    then have "v \<in> set L" using Cons.prems by auto
    then have "sum_list (map f L) < sum_list (map g L)"
      using Cons.IH Cons.prems by auto
    then show ?thesis using Cons.prems(1) [of a] by auto
  qed
qed

lemma mu_update:
  assumes v: "v \<in> insert s (nodes_of m)" and dn: "dist v = Some dn"
    and lt: "num_lt x dn" and x0: "0 \<le> x"
  shows "(mu m s (dist(v \<mapsto> PyInt x)), mu m s dist) \<in> less_than <*lex*> less_than"
proof (cases dn)
  case PyInf
  have "length (filter (\<lambda>t. (dist(v \<mapsto> PyInt x)) t = Some PyInf) (node_list m s))
      < length (filter (\<lambda>t. dist t = Some PyInf) (node_list m s))"
    by (rule filter_length_strict [where v = v])
       (use v dn PyInf in \<open>auto simp: set_node_list split: if_splits\<close>)
  then show ?thesis by (simp add: mu_def)
next
  case (PyInt y)
  have xy: "x < y" using lt PyInt by simp
  have same: "filter (\<lambda>t. (dist(v \<mapsto> PyInt x)) t = Some PyInf) (node_list m s)
      = filter (\<lambda>t. dist t = Some PyInf) (node_list m s)"
    by (rule filter_cong) (use dn PyInt in auto)
  have "sum_list (map (fin_val (dist(v \<mapsto> PyInt x))) (node_list m s))
      < sum_list (map (fin_val dist) (node_list m s))"
    by (rule sum_list_strict [where v = v])
       (use v dn PyInt xy x0 in \<open>auto simp: set_node_list fin_val_def\<close>)
  then show ?thesis unfolding mu_def same by simp
qed

lemma lex_trans:
  "(a, b) \<in> less_than <*lex*> less_than \<Longrightarrow> (b, c) \<in> less_than <*lex*> less_than \<Longrightarrow>
     (a, c) \<in> less_than <*lex*> less_than"
  by (cases a, cases b, cases c) auto

lemma relax_neighbors_inv:
  assumes nn: "nonneg_weights m"
  shows "relax_inv m s d u cd path R pq dist \<Longrightarrow> set ns \<subseteq> adj_set m u \<Longrightarrow>
     \<exists>pq' dist'. relax_neighbors cd path ns pq dist = Inr (pq', dist')
       \<and> relax_inv m s d u cd path (R \<union> set ns) pq' dist'
       \<and> ((pq' = pq \<and> dist' = dist)
          \<or> (mu m s dist', mu m s dist) \<in> less_than <*lex*> less_than)"
proof (induction ns arbitrary: R pq dist)
  case Nil
  then show ?case by simp
next
  case (Cons item ns)
  obtain v w where item: "item = (v, w)" by (cases item)
  have adj: "(v, w) \<in> adj_set m u" and sub: "set ns \<subseteq> adj_set m u"
    using Cons.prems(2) item by auto
  have dok: "dist_ok m s dist" and du: "dist u = Some (PyInt cd)"
    using Cons.prems(1) by (auto simp: relax_inv_def)
  have vin: "v \<in> insert s (nodes_of m)" using adj_set_nodes [OF adj] by simp
  then have "v \<in> dom dist" using dok by (simp add: dist_ok_def)
  then obtain dn where dn: "dist v = Some dn" by auto
  have un: "insert (v, w) R \<union> set ns = R \<union> set (item # ns)" by (auto simp: item)
  show ?case
  proof (cases "num_lt (cd + w) dn")
    case False
    have "relax_inv m s d u cd path (insert (v, w) R) pq dist"
      using Cons.prems(1) dn False by (rule relax_keep)
    from Cons.IH [OF this sub] show ?thesis
      using dn False by (simp add: item un)
  next
    case True
    let ?pq = "heappush pq (cd + w, v, path @ [v])"
    let ?dist = "dist(v \<mapsto> PyInt (cd + w))"
    have w0: "0 \<le> w" using nn adj by (rule adj_set_nonneg)
    have cd0: "0 \<le> cd" using dok du by (auto simp: dist_ok_def)
    have dec: "(mu m s ?dist, mu m s dist) \<in> less_than <*lex*> less_than"
      using vin dn True by (rule mu_update) (use w0 cd0 in simp)
    have "relax_inv m s d u cd path (insert (v, w) R) ?pq ?dist"
      using Cons.prems(1) nn adj dn True by (rule relax_update)
    from Cons.IH [OF this sub] obtain pq' dist' where
      r: "relax_neighbors cd path ns ?pq ?dist = Inr (pq', dist')"
      and i: "relax_inv m s d u cd path (insert (v, w) R \<union> set ns) pq' dist'"
      and c: "(pq' = ?pq \<and> dist' = ?dist)
          \<or> (mu m s dist', mu m s ?dist) \<in> less_than <*lex*> less_than"
      by blast
    have "(mu m s dist', mu m s dist) \<in> less_than <*lex*> less_than"
      using c dec lex_trans by blast
    then show ?thesis
      using r i dn True by (simp add: item un)
  qed
qed

lemma walk_bound:
  assumes nn: "nonneg_weights m" and inv: "dijkstra_inv m s d pq dist"
  shows "is_walk m q \<Longrightarrow> hd q = s \<Longrightarrow>
     (\<exists>c u p. (c, u, p) \<in> set pq \<and> c \<le> path_weight m q)
     \<or> (\<exists>y. dist (last q) = Some (PyInt y) \<and> y \<le> path_weight m q)"
proof (induction q rule: rev_induct)
  case Nil
  then show ?case by simp
next
  case (snoc t q)
  show ?case
  proof (cases "q = []")
    case True
    then have "t = s" using snoc.prems by simp
    moreover have "dist s = Some (PyInt 0)"
      using inv by (simp add: dijkstra_inv_def dist_ok_def)
    ultimately show ?thesis using True by simp
  next
    case False
    then have wq: "is_walk m q" and adj: "adjacent m (last q) t" and hq: "hd q = s"
      using snoc.prems by (auto simp: is_walk_snoc)
    let ?w = "step_weight m (last q) t"
    have a: "(t, ?w) \<in> adj_set m (last q)" using adj by (rule step_weight_adj)
    have w0: "0 \<le> ?w" using nn a by (rule adj_set_nonneg)
    have pw: "path_weight m (q @ [t]) = path_weight m q + ?w"
      using False by (rule path_weight_snoc)
    from snoc.IH [OF wq hq] consider
      (entry) c u p where "(c, u, p) \<in> set pq" "c \<le> path_weight m q"
      | (dist) y where "dist (last q) = Some (PyInt y)" "y \<le> path_weight m q"
      by blast
    then show ?thesis
    proof cases
      case entry
      then have "(c, u, p) \<in> set pq \<and> c \<le> path_weight m (q @ [t])" using pw w0 by simp
      then show ?thesis by blast
    next
      case dist
      have "node_done m pq dist (last q)" using inv by (simp add: dijkstra_inv_def)
      with dist(1) consider
        (opened) p where "(y, last q, p) \<in> set pq"
        | (relaxed) "\<forall>v' w. (v', w) \<in> adj_set m (last q)
              \<longrightarrow> (\<exists>y'. dist v' = Some (PyInt y') \<and> y' \<le> y + w)"
        unfolding node_done_def by blast
      then show ?thesis
      proof cases
        case opened
        then have "(y, last q, p) \<in> set pq \<and> y \<le> path_weight m (q @ [t])"
          using dist(2) pw w0 by simp
        then show ?thesis by blast
      next
        case relaxed
        with a obtain y' where "dist t = Some (PyInt y')" "y' \<le> y + ?w" by blast
        then show ?thesis using dist(2) pw by simp
      qed
    qed
  qed
qed

lemma entry_fst_le:
  fixes e e' :: "'n::linorder entry"
  shows "e \<le> e' \<Longrightarrow> fst e \<le> fst e'"
  by (auto simp: less_eq_prod_def)

lemma entries_ok_subset:
  "entries_ok m s pq dist \<Longrightarrow> set pq' \<subseteq> set pq \<Longrightarrow> entries_ok m s pq' dist"
  unfolding entries_ok_def by (meson subsetD)

lemma node_done_keep:
  assumes "node_done m pq dist v"
    and "\<And>x p. (x, v, p) \<in> set pq \<Longrightarrow> dist v = Some (PyInt x) \<Longrightarrow> (x, v, p) \<in> set pq'"
  shows "node_done m pq' dist v"
  unfolding node_done_def
proof (intro allI impI)
  fix x assume dv: "dist v = Some (PyInt x)"
  from assms(1) dv consider p where "(x, v, p) \<in> set pq"
    | "\<forall>v' w. (v', w) \<in> adj_set m v \<longrightarrow> (\<exists>y. dist v' = Some (PyInt y) \<and> y \<le> x + w)"
    unfolding node_done_def by blast
  then show "(\<exists>p. (x, v, p) \<in> set pq')
      \<or> (\<forall>v' w. (v', w) \<in> adj_set m v \<longrightarrow> (\<exists>y. dist v' = Some (PyInt y) \<and> y \<le> x + w))"
  proof cases
    case 1
    then have "(x, v, p) \<in> set pq'" using dv by (rule assms(2))
    then show ?thesis by (intro disjI1 exI)
  next
    case 2 then show ?thesis by (rule disjI2)
  qed
qed

lemma dest_open_keep:
  assumes "dest_open d pq dist"
    and "\<And>x p. (x, d, p) \<in> set pq \<Longrightarrow> dist d = Some (PyInt x) \<Longrightarrow> (x, d, p) \<in> set pq'"
  shows "dest_open d pq' dist"
  unfolding dest_open_def
proof (intro allI impI)
  fix y assume dv: "dist d = Some (PyInt y)"
  with assms(1) obtain p where "(y, d, p) \<in> set pq" unfolding dest_open_def by blast
  then have "(y, d, p) \<in> set pq'" using dv by (rule assms(2))
  then show "\<exists>p. (y, d, p) \<in> set pq'" by (rule exI)
qed

lemma inv_remove1:
  assumes inv: "dijkstra_inv m s d pq dist" and ud: "u \<noteq> d"
    and du: "dist u = Some (PyInt x)" and cx: "x < c"
  shows "dijkstra_inv m s d (remove1 (c, u, p) pq) dist"
proof -
  have E: "entries_ok m s pq dist" and D: "dist_ok m s dist"
    and N: "\<And>v. node_done m pq dist v" and O: "dest_open d pq dist"
    using inv by (simp_all add: dijkstra_inv_def)
  have keep: "(c', v, p') \<in> set (remove1 (c, u, p) pq)"
    if "(c', v, p') \<in> set pq" "dist v = Some (PyInt c')" for c' v p'
  proof -
    have "(c', v, p') \<noteq> (c, u, p)" using that(2) du cx by auto
    then show ?thesis using that(1) by simp
  qed
  have "entries_ok m s (remove1 (c, u, p) pq) dist"
    using E by (rule entries_ok_subset) (rule set_remove1_subset)
  moreover have "node_done m (remove1 (c, u, p) pq) dist v" for v
    using N [of v] by (rule node_done_keep) (rule keep)
  moreover have "dest_open d (remove1 (c, u, p) pq) dist"
    using O by (rule dest_open_keep) (rule keep)
  ultimately show ?thesis using D by (simp add: dijkstra_inv_def)
qed

lemma inv_start_relax:
  assumes inv: "dijkstra_inv m s d pq dist" and ud: "u \<noteq> d"
    and mem: "(c, u, p) \<in> set pq" and du: "dist u = Some (PyInt c)"
  shows "relax_inv m s d u c p {} (remove1 (c, u, p) pq) dist"
proof -
  have E: "entries_ok m s pq dist" and D: "dist_ok m s dist"
    and N: "\<And>v. node_done m pq dist v" and O: "dest_open d pq dist"
    using inv by (simp_all add: dijkstra_inv_def)
  have keep: "(c', v, p') \<in> set (remove1 (c, u, p) pq)"
    if "(c', v, p') \<in> set pq" "v \<noteq> u" for c' v p'
    using that by simp
  have E': "entries_ok m s (remove1 (c, u, p) pq) dist"
    using E by (rule entries_ok_subset) (rule set_remove1_subset)
  have N': "node_done m (remove1 (c, u, p) pq) dist v" if "v \<noteq> u" for v
    using N [of v] by (rule node_done_keep) (rule keep, assumption, rule that)
  have O': "dest_open d (remove1 (c, u, p) pq) dist"
    using O by (rule dest_open_keep) (rule keep, assumption, rule ud [symmetric])
  have W: "walk_between m s u p \<and> path_weight m p \<le> c"
    using E mem unfolding entries_ok_def by blast
  show ?thesis
    unfolding relax_inv_def using E' D N' O' W du by simp
qed

lemma inv_end_relax:
  assumes "relax_inv m s d u c p (adj_set m u) pq dist"
  shows "dijkstra_inv m s d pq dist"
proof -
  have du: "dist u = Some (PyInt c)"
    and R: "\<forall>v w. (v, w) \<in> adj_set m u \<longrightarrow> (\<exists>y. dist v = Some (PyInt y) \<and> y \<le> c + w)"
    and N: "\<And>v. v \<noteq> u \<Longrightarrow> node_done m pq dist v"
    using assms by (simp_all add: relax_inv_def)
  have "node_done m pq dist v" for v
  proof (cases "v = u")
    case True
    show ?thesis unfolding node_done_def True using du R by simp
  next
    case False
    then show ?thesis by (rule N)
  qed
  then show ?thesis using assms by (simp add: relax_inv_def dijkstra_inv_def)
qed

lemma loop_empty:
  assumes nn: "nonneg_weights m" and inv: "dijkstra_inv m s d [] dist"
  shows "\<not> reachable m s d"
proof
  assume "reachable m s d"
  then obtain q where q: "is_walk m q" "hd q = s" "last q = d"
    by (auto simp: reachable_def walk_between_def)
  from walk_bound [OF nn inv q(1) q(2)] obtain y where "dist d = Some (PyInt y)"
    using q(3) by auto
  then show False using inv by (simp add: dijkstra_inv_def dest_open_def)
qed

lemma loop_found:
  fixes pq :: "'n::linorder entry list"
  assumes nn: "nonneg_weights m" and inv: "dijkstra_inv m s d pq dist"
    and mem: "(c, d, p) \<in> set pq" and least: "\<And>e. e \<in> set pq \<Longrightarrow> (c, d, p) \<le> e"
  shows "shortest_walk m s d p"
proof -
  have E: "entries_ok m s pq dist" and O: "dest_open d pq dist"
    using inv by (simp_all add: dijkstra_inv_def)
  have W: "walk_between m s d p" and pc: "path_weight m p \<le> c"
    using E mem unfolding entries_ok_def by blast+
  have "path_weight m p \<le> path_weight m q" if q: "walk_between m s d q" for q
  proof -
    from q have q': "is_walk m q" "hd q = s" "last q = d" by (simp_all add: walk_between_def)
    from walk_bound [OF nn inv q'(1) q'(2)] consider
      (entry) c' u p' where "(c', u, p') \<in> set pq" "c' \<le> path_weight m q"
      | (dist) y where "dist d = Some (PyInt y)" "y \<le> path_weight m q"
      using q'(3) by auto
    then show ?thesis
    proof cases
      case entry
      from least [OF entry(1)] have "c \<le> c'" by (auto dest: entry_fst_le)
      then show ?thesis using pc entry(2) by simp
    next
      case dist
      with O obtain p' where "(y, d, p') \<in> set pq" unfolding dest_open_def by blast
      from least [OF this] have "c \<le> y" by (auto dest: entry_fst_le)
      then show ?thesis using pc dist(2) by simp
    qed
  qed
  then show ?thesis using W by (simp add: shortest_walk_def)
qed

lemma dijkstra_loop_correct:
  fixes pq :: "'n::linorder entry list"
  assumes nn: "nonneg_weights m" and g: "\<And>u. set (graph_get graph u) = adj_set m u"
  shows "dijkstra_inv m s d pq dist \<Longrightarrow>
     \<exists>r. dijkstra_loop graph d pq dist = Some (Inr r) \<and> loop_post m s d r"
proof -
  define rel where "rel = inv_image ((less_than <*lex*> less_than) <*lex*> less_than)
      (\<lambda>st :: 'n entry list \<times> 'n distances. (mu m s (snd st), length (fst st)))"
  have wf: "wf rel" unfolding rel_def by (intro wf_inv_image wf_lex_prod wf_less_than)
  have "dijkstra_inv m s d (fst st) (snd st) \<longrightarrow>
     (\<exists>r. dijkstra_loop graph d (fst st) (snd st) = Some (Inr r) \<and> loop_post m s d r)" for st
    using wf
  proof (induction st rule: wf_induct_rule)
    case (less st)
    obtain pq dist where st: "st = (pq, dist)" by (cases st)
    show ?case
    proof
      assume "dijkstra_inv m s d (fst st) (snd st)"
      then have inv: "dijkstra_inv m s d pq dist" by (simp add: st)
      have IH: "\<exists>r. dijkstra_loop graph d pq' dist' = Some (Inr r) \<and> loop_post m s d r"
        if "dijkstra_inv m s d pq' dist'"
          "(mu m s dist', mu m s dist) \<in> less_than <*lex*> less_than
           \<or> (dist' = dist \<and> length pq' < length pq)" for pq' dist'
      proof -
        have "((pq', dist'), st) \<in> rel" using that(2) by (auto simp: rel_def st)
        from less [OF this] that(1) show ?thesis by simp
      qed
      have "\<exists>r. dijkstra_loop graph d pq dist = Some (Inr r) \<and> loop_post m s d r"
      proof (cases "pq = []")
        case True
        have "\<not> reachable m s d" using nn inv unfolding True by (rule loop_empty)
        moreover have "dijkstra_loop graph d pq dist = Some (Inr [])"
          by (subst dijkstra_loop.simps) (simp add: True)
        ultimately show ?thesis by (simp add: loop_post_def)
      next
        case False
        obtain c u p where e: "Min (set pq) = (c, u, p)" by (rule prod_cases3)
        have mem: "(c, u, p) \<in> set pq"
          using Min_in [of "set pq"] False e by simp
        have least: "(c, u, p) \<le> e'" if "e' \<in> set pq" for e'
          using Min_le [of "set pq" e'] that e by simp
        have pop: "heappop pq = ((c, u, p), remove1 (c, u, p) pq)"
          using heappop_Min [OF False] e by simp
        have len: "length (remove1 (c, u, p) pq) < length pq"
          using mem by (simp add: length_remove1) (cases pq, auto)
        show ?thesis
        proof (cases "u = d")
          case True
          have "shortest_walk m s d p"
            using nn inv mem least unfolding True by (rule loop_found)
          moreover have "dijkstra_loop graph d pq dist = Some (Inr p)"
            by (subst dijkstra_loop.simps) (simp add: False pop True)
          ultimately show ?thesis by (simp add: loop_post_def)
        next
          case ud: False
          have E: "entries_ok m s pq dist" using inv by (simp add: dijkstra_inv_def)
          then obtain x where du: "dist u = Some (PyInt x)" and xc: "x \<le> c"
            using mem unfolding entries_ok_def by blast
          show ?thesis
          proof (cases "x < c")
            case True
            have "dijkstra_inv m s d (remove1 (c, u, p) pq) dist"
              using inv ud du True by (rule inv_remove1)
            from IH [OF this] len
            obtain r where "dijkstra_loop graph d (remove1 (c, u, p) pq) dist = Some (Inr r)"
              "loop_post m s d r" by auto
            moreover have "dijkstra_loop graph d pq dist
                = dijkstra_loop graph d (remove1 (c, u, p) pq) dist"
              by (subst dijkstra_loop.simps) (simp add: False pop ud du True)
            ultimately show ?thesis by simp
          next
            case nx: False
            then have cx: "x = c" using xc by simp
            have "relax_inv m s d u c p {} (remove1 (c, u, p) pq) dist"
              using inv ud mem du [unfolded cx] by (rule inv_start_relax)
            from relax_neighbors_inv [OF nn this, of "graph_get graph u"]
            obtain pq2 dist2 where
              rl: "relax_neighbors c p (graph_get graph u) (remove1 (c, u, p) pq) dist
                     = Inr (pq2, dist2)"
              and ri: "relax_inv m s d u c p (adj_set m u) pq2 dist2"
              and dec: "(pq2 = remove1 (c, u, p) pq \<and> dist2 = dist)
                  \<or> (mu m s dist2, mu m s dist) \<in> less_than <*lex*> less_than"
              using g [of u] by auto
            have "dijkstra_inv m s d pq2 dist2" using ri by (rule inv_end_relax)
            from IH [OF this] dec len
            obtain r where "dijkstra_loop graph d pq2 dist2 = Some (Inr r)"
              "loop_post m s d r" by auto
            moreover have "dijkstra_loop graph d pq dist = dijkstra_loop graph d pq2 dist2"
              by (subst dijkstra_loop.simps) (simp add: False pop ud du cx rl)
            ultimately show ?thesis by simp
          qed
        qed
      qed
      then show "\<exists>r. dijkstra_loop graph d (fst st) (snd st) = Some (Inr r) \<and> loop_post m s d r"
        by (simp add: st)
    qed
  qed
  from this [of "(pq, dist)"] show "dijkstra_inv m s d pq dist \<Longrightarrow>
     \<exists>r. dijkstra_loop graph d pq dist = Some (Inr r) \<and> loop_post m s d r" by simp
qed

lemma initial_inv:
  "dijkstra_inv m s d [(0, s, [s])]
     ((\<lambda>node. if node \<in> nodes_of m then Some PyInf else None)(s \<mapsto> PyInt 0))"
proof -
  let ?dist = "(\<lambda>node. if node \<in> nodes_of m then Some PyInf else None)(s \<mapsto> PyInt 0)"
  have fin: "v = s \<and> x = 0" if "?dist v = Some (PyInt x)" for v x
    using that by (auto split: if_splits)
  have "entries_ok m s [(0, s, [s])] ?dist"
    by (simp add: entries_ok_def walk_between_def)
  moreover have "dist_ok m s ?dist"
    unfolding dist_ok_def
  proof (intro conjI allI impI)
    show "?dist s = Some (PyInt 0)" by simp
    show "dom ?dist = insert s (nodes_of m)" by (auto simp: dom_def)
    show "0 \<le> x" if "?dist v = Some (PyInt x)" for v x using fin [OF that] by simp
  qed
  moreover have "node_done m [(0, s, [s])] ?dist v" for v
    unfolding node_done_def
  proof (intro allI impI)
    fix x assume "?dist v = Some (PyInt x)"
    from fin [OF this] have "(x, v, [s]) \<in> set [(0, s, [s])]" by simp
    then show "(\<exists>p. (x, v, p) \<in> set [(0, s, [s])])
      \<or> (\<forall>v' w. (v', w) \<in> adj_set m v \<longrightarrow> (\<exists>y. ?dist v' = Some (PyInt y) \<and> y \<le> x + w))"
      by (intro disjI1 exI)
  qed
  moreover have "dest_open d [(0, s, [s])] ?dist"
    unfolding dest_open_def
  proof (intro allI impI)
    fix y assume "?dist d = Some (PyInt y)"
    from fin [OF this] have "(y, d, [s]) \<in> set [(0, s, [s])]" by simp
    then show "\<exists>p. (y, d, p) \<in> set [(0, s, [s])]" by (rule exI)
  qed
  ultimately show ?thesis by (simp add: dijkstra_inv_def)
qed

lemma HPV_GetShortestPath_post:
  assumes nn: "nonneg_weights m"
  shows "\<exists>r. HPV_GetShortestPath s d m = Some (Inr r) \<and> loop_post m s d r"
proof -
  obtain graph nodes where b: "build_graph m = (graph, nodes)" by (cases "build_graph m")
  have g: "set (graph_get graph u) = adj_set m u" for u
    using build_graph_adj [of m u] b by simp
  have n: "nodes = nodes_of m" using build_graph_nodes [of m] b by simp
  have "\<exists>r. dijkstra_loop graph d [(0, s, [s])]
          ((\<lambda>node. if node \<in> nodes_of m then Some PyInf else None)(s \<mapsto> PyInt 0))
        = Some (Inr r) \<and> loop_post m s d r"
    using nn g initial_inv by (rule dijkstra_loop_correct)
  then show ?thesis by (simp add: HPV_GetShortestPath_def b n heappush_def)
qed

lemma walk_ends:
  "is_walk m q \<Longrightarrow> hd q \<noteq> last q \<Longrightarrow> hd q \<in> nodes_of m \<and> last q \<in> nodes_of m"
proof (induction m q rule: is_walk.induct)
  case (1 m)
  then show ?case by simp
next
  case (2 m x)
  then show ?case by simp
next
  case (3 m x y rest)
  from "3.prems" have adj: "adjacent m x y" and w: "is_walk m (y # rest)" by simp_all
  from adj obtain w' where a: "(y, w') \<in> adj_set m x" unfolding adjacent_iff by (rule exE)
  have xy: "y \<in> nodes_of m" "x \<in> nodes_of m" using adj_set_nodes [OF a] by simp_all
  have "last (y # rest) \<in> nodes_of m"
  proof (cases "hd (y # rest) = last (y # rest)")
    case True
    then show ?thesis using xy by simp
  next
    case False
    with w have "hd (y # rest) \<in> nodes_of m \<and> last (y # rest) \<in> nodes_of m"
      by (rule "3.IH")
    then show ?thesis by (rule conjunct2)
  qed
  then show ?case using xy by simp
qed

lemma unknown_node_unreachable:
  assumes "s \<noteq> d" and "s \<notin> nodes_of m \<or> d \<notin> nodes_of m"
  shows "\<not> reachable m s d"
proof
  assume "reachable m s d"
  then obtain q where q: "is_walk m q" "hd q = s" "last q = d"
    by (auto simp: reachable_def walk_between_def)
  have "hd q \<noteq> last q" using q assms(1) by simp
  with q(1) have "hd q \<in> nodes_of m \<and> last q \<in> nodes_of m" by (rule walk_ends)
  then show False using q assms(2) by simp
qed

section \<open>Shortest paths\<close>

text \<open>
  Claim C1. For every graph map whose weights are non-negative integers and every pair of
  nodes \<open>(s, d)\<close> with \<open>d\<close> reachable from \<open>s\<close>, \<open>HPV_GetShortestPath(s, d, map)\<close>
  returns (it ends, and raises nothing) a sequence whose first element is \<open>s\<close>, whose last
  element is \<open>d\<close>, whose consecutive elements are joined by an edge of the map in one
  direction or the other, and whose total weight is the minimum distance from \<open>s\<close> to
  \<open>d\<close>: the weight of some walk from \<open>s\<close> to \<open>d\<close>, and at most the weight of every one.
\<close>

theorem C1_shortest_path:
  fixes m :: "'n::linorder weights"
  assumes "nonneg_weights m" and "reachable m s d"
  shows "\<exists>p. HPV_GetShortestPath s d m = Some (Inr p)
           \<and> hd p = s \<and> last p = d \<and> is_walk m p
           \<and> min_distance_is m s d (path_weight m p)"
proof -
  from HPV_GetShortestPath_post [OF assms(1), of s d]
  obtain r where r: "HPV_GetShortestPath s d m = Some (Inr r)" and post: "loop_post m s d r"
    by blast
  from post assms(2) have sw: "shortest_walk m s d r" by (auto simp: loop_post_def)
  then have w: "walk_between m s d r"
    and least: "\<forall>q. walk_between m s d q \<longrightarrow> path_weight m r \<le> path_weight m q"
    by (simp_all add: shortest_walk_def)
  have "min_distance_is m s d (path_weight m r)"
    unfolding min_distance_is_def
  proof (intro conjI)
    show "\<exists>q. walk_between m s d q \<and> path_weight m q = path_weight m r"
      using w by (intro exI [of _ r]) simp
    show "\<forall>q. walk_between m s d q \<longrightarrow> path_weight m r \<le> path_weight m q"
      by (rule least)
  qed
  then show ?thesis using r w by (simp add: walk_between_def)
qed

theorem C1_shortest_path_witness:
  "nonneg_weights CloudServer_GlobalGraph
   \<and> reachable CloudServer_GlobalGraph (CHR ''C'') (CHR ''A'')
   \<and> (\<exists>p. HPV_GetShortestPath (CHR ''C'') (CHR ''A'') CloudServer_GlobalGraph = Some (Inr p)
         \<and> hd p = CHR ''C'' \<and> last p = CHR ''A'' \<and> is_walk CloudServer_GlobalGraph p
         \<and> min_distance_is CloudServer_GlobalGraph (CHR ''C'') (CHR ''A'')
              (path_weight CloudServer_GlobalGraph p))"
proof -
  have h1: "nonneg_weights CloudServer_GlobalGraph"
    by (simp add: nonneg_weights_def CloudServer_GlobalGraph_def)
  have "walk_between CloudServer_GlobalGraph (CHR ''C'') (CHR ''A'') ''CBA''"
    by (simp add: walk_between_def adjacent_def edge_weights_def CloudServer_GlobalGraph_def)
  then have h2: "reachable CloudServer_GlobalGraph (CHR ''C'') (CHR ''A'')"
    unfolding reachable_def by (rule exI)
  note r = C1_shortest_path [OF h1 h2]
  show ?thesis by (rule conjI [OF h1 conjI [OF h2 r]])
qed

section \<open>Queries without a path\<close>

text \<open>
  Claim C5. For every graph map (its weights non-negative integers, as the data model has
  them) and every pair \<open>(s, d)\<close> with \<open>d\<close> unreachable from \<open>s\<close>,
  \<open>HPV_GetShortestPath(s, d, map)\<close> returns the empty sequence and raises nothing. A node
  that is an endpoint of no edge behaves as a node without incident edges: when \<open>s\<close> and
  \<open>d\<close> differ and one of them is such a node, \<open>d\<close> is unreachable from \<open>s\<close>.
\<close>

theorem C5_no_path:
  fixes m :: "'n::linorder weights"
  assumes "nonneg_weights m"
  shows "(\<not> reachable m s d \<longrightarrow> HPV_GetShortestPath s d m = Some (Inr []))
       \<and> (s \<noteq> d \<and> (s \<notin> nodes_of m \<or> d \<notin> nodes_of m) \<longrightarrow> \<not> reachable m s d)"
proof (intro conjI impI)
  assume un: "\<not> reachable m s d"
  from HPV_GetShortestPath_post [OF assms, of s d]
  obtain r where r: "HPV_GetShortestPath s d m = Some (Inr r)" and post: "loop_post m s d r"
    by blast
  have "\<not> walk_between m s d r"
    using un unfolding reachable_def by (rule contrapos_nn) (rule exI)
  then have "\<not> shortest_walk m s d r"
    by (simp add: shortest_walk_def)
  with post have "r = []" by (simp add: loop_post_def)
  with r show "HPV_GetShortestPath s d m = Some (Inr [])" by simp
next
  assume "s \<noteq> d \<and> (s \<notin> nodes_of m \<or> d \<notin> nodes_of m)"
  then have "s \<noteq> d" "s \<notin> nodes_of m \<or> d \<notin> nodes_of m" by simp_all
  then show "\<not> reachable m s d" by (rule unknown_node_unreachable)
qed

theorem C5_no_path_witness:
  "nonneg_weights CloudServer_GlobalGraph
   \<and> CHR ''A'' \<noteq> CHR ''Z'' \<and> CHR ''Z'' \<notin> nodes_of CloudServer_GlobalGraph
   \<and> \<not> reachable CloudServer_GlobalGraph (CHR ''A'') (CHR ''Z'')
   \<and> HPV_GetShortestPath (CHR ''A'') (CHR ''Z'') CloudServer_GlobalGraph = Some (Inr [])"
proof -
  have h1: "nonneg_weights CloudServer_GlobalGraph"
    by (simp add: nonneg_weights_def CloudServer_GlobalGraph_def)
  have h2: "CHR ''Z'' \<notin> nodes_of CloudServer_GlobalGraph"
    by (simp add: nodes_of_def CloudServer_GlobalGraph_def)
  have h3: "CHR ''A'' \<noteq> CHR ''Z''" by simp
  note r = C5_no_path [OF h1, of "CHR ''A''" "CHR ''Z''"]
  from r h2 h3 have u: "\<not> reachable CloudServer_GlobalGraph (CHR ''A'') (CHR ''Z'')"
    by (simp only: simp_thms)
  from r u have "HPV_GetShortestPath (CHR ''A'') (CHR ''Z'') CloudServer_GlobalGraph = Some (Inr [])"
    by (simp only: simp_thms)
  with h1 h2 h3 u show ?thesis by (simp only: simp_thms)
qed

section \<open>The reference query\<close>

lemma result_is_shortest:
  fixes m :: "'n::linorder weights"
  assumes "nonneg_weights m" and "HPV_GetShortestPath s d m = Some (Inr r)" and "r \<noteq> []"
  shows "walk_between m s d r \<and> min_distance_is m s d (path_weight m r)"
proof -
  from HPV_GetShortestPath_post [OF assms(1), of s d] assms(2)
  have "loop_post m s d r" by auto
  with assms(3) have sw: "shortest_walk m s d r" by (simp add: loop_post_def)
  then have w: "walk_between m s d r"
    and least: "\<forall>q. walk_between m s d q \<longrightarrow> path_weight m r \<le> path_weight m q"
    by (simp_all add: shortest_walk_def)
  have "min_distance_is m s d (path_weight m r)"
    unfolding min_distance_is_def
  proof (intro conjI)
    show "\<exists>q. walk_between m s d q \<and> path_weight m q = path_weight m r"
      using w by (intro exI [of _ r]) simp
    show "\<forall>q. walk_between m s d q \<longrightarrow> path_weight m r \<le> path_weight m q"
      by (rule least)
  qed
  with w show ?thesis by simp
qed

text \<open>
  Claim C7. On the reference topology, the query from \<open>B\<close> to \<open>A\<close> returns a path that
  starts at \<open>B\<close>, ends at \<open>A\<close>, follows edges of the topology, and whose weights sum to 3.
  3 is the shortest distance from \<open>B\<close> to \<open>A\<close>; the direct edge between them costs 6.
\<close>

theorem C7_reference_query:
  "\<exists>p. HPV_GetShortestPath (CHR ''B'') (CHR ''A'') CloudServer_GlobalGraph = Some (Inr p)
     \<and> hd p = CHR ''B'' \<and> last p = CHR ''A'' \<and> is_walk CloudServer_GlobalGraph p
     \<and> path_weight CloudServer_GlobalGraph p = 3
     \<and> min_distance_is CloudServer_GlobalGraph (CHR ''B'') (CHR ''A'') 3
     \<and> step_weight CloudServer_GlobalGraph (CHR ''A'') (CHR ''B'') = 6"
proof -
  have r: "HPV_GetShortestPath (CHR ''B'') (CHR ''A'') CloudServer_GlobalGraph
      = Some (Inr ''BDA'')"
    by (simp add: HPV_GetShortestPath_def CloudServer_GlobalGraph_def build_graph_def
        add_edge_def graph_get_def heappush_def heappop_def dijkstra_loop.simps Let_def)
  have nn: "nonneg_weights CloudServer_GlobalGraph"
    by (simp add: nonneg_weights_def CloudServer_GlobalGraph_def)
  have w: "is_walk CloudServer_GlobalGraph ''BDA''"
    by (simp add: CloudServer_GlobalGraph_def adjacent_def edge_weights_def)
  have pw: "path_weight CloudServer_GlobalGraph ''BDA'' = 3"
    by (simp add: CloudServer_GlobalGraph_def step_weight_def edge_weights_def)
  have "min_distance_is CloudServer_GlobalGraph (CHR ''B'') (CHR ''A'')
      (path_weight CloudServer_GlobalGraph ''BDA'')"
    using result_is_shortest [OF nn r] by simp
  then have md: "min_distance_is CloudServer_GlobalGraph (CHR ''B'') (CHR ''A'') 3"
    by (simp only: pw)
  have direct: "step_weight CloudServer_GlobalGraph (CHR ''A'') (CHR ''B'') = 6"
    by (simp add: CloudServer_GlobalGraph_def step_weight_def edge_weights_def)
  have ends: "hd ''BDA'' = CHR ''B''" "last ''BDA'' = CHR ''A''" by simp_all
  show ?thesis
    by (rule exI [of _ "''BDA''"]) (intro conjI r ends w pw md direct)
qed

text \<open>The direct walk from \<open>B\<close> to \<open>A\<close> is one of the walks that the distance 3 bounds.\<close>

theorem C7_reference_query_witness:
  "walk_between CloudServer_GlobalGraph (CHR ''B'') (CHR ''A'') ''BA''
   \<and> 3 \<le> path_weight CloudServer_GlobalGraph ''BA''"
proof -
  have w: "walk_between CloudServer_GlobalGraph (CHR ''B'') (CHR ''A'') ''BA''"
    by (simp add: walk_between_def adjacent_def edge_weights_def CloudServer_GlobalGraph_def)
  from C7_reference_query
  have "min_distance_is CloudServer_GlobalGraph (CHR ''B'') (CHR ''A'') 3" by blast
  then have a: "\<forall>q. walk_between CloudServer_GlobalGraph (CHR ''B'') (CHR ''A'') q
      \<longrightarrow> 3 \<le> path_weight CloudServer_GlobalGraph q"
    by (simp add: min_distance_is_def)
  have "3 \<le> path_weight CloudServer_GlobalGraph ''BA''"
    using a [rule_format, OF w] .
  with w show ?thesis by (rule conjI)
qed

section \<open>UTF-8: encoding what was decoded\<close>

lemma divmod64: "r < 64 \<Longrightarrow> (q * 64 + r) div 64 = (q::nat) \<and> (q * 64 + r) mod 64 = r"
  by simp

lemma div4096: "(x::nat) div 4096 = x div 64 div 64"
  using div_mult2_eq [of x 64 64] by simp

lemma div262144: "(x::nat) div 262144 = x div 64 div 64 div 64"
  using div_mult2_eq [of x 4096 64] div4096 [of x] by simp

lemma enc1: "c < 0x80 \<Longrightarrow> utf8_enc_char c = Inr [c]"
  by (simp add: utf8_enc_char_def)

lemma enc2:
  assumes "2 \<le> a" "a < 32" "b < 64"
  shows "utf8_enc_char (a * 64 + b) = Inr [0xC0 + a, 0x80 + b]"
proof -
  define x where "x = a * 64 + b"
  have lo: "\<not> x < 0x80" and hi: "x < 0x800" using assms unfolding x_def by simp_all
  have d: "x div 64 = a" "x mod 64 = b"
    using divmod64 [OF assms(3), of a] unfolding x_def by simp_all
  have "utf8_enc_char x = Inr [0xC0 + a, 0x80 + b]"
    unfolding utf8_enc_char_def using lo hi d by simp
  then show ?thesis unfolding x_def .
qed

lemma enc3:
  assumes "a < 16" "b < 64" "e < 64" "a = 0 \<longrightarrow> 32 \<le> b" "a = 13 \<longrightarrow> b < 32"
  shows "utf8_enc_char ((a * 64 + b) * 64 + e) = Inr [0xE0 + a, 0x80 + b, 0x80 + e]"
proof -
  define y where "y = a * 64 + b"
  define x where "x = y * 64 + e"
  have lo: "\<not> x < 0x800"
  proof (cases "a = 0")
    case True then show ?thesis using assms(4) unfolding x_def y_def by simp
  next
    case False then show ?thesis unfolding x_def y_def by simp
  qed
  have hi: "x < 0x10000" using assms(1-3) unfolding x_def y_def by simp
  have sur: "\<not> (0xD800 \<le> x \<and> x \<le> 0xDFFF)"
  proof (cases "a = 13")
    case True then show ?thesis using assms(3,5) unfolding x_def y_def by simp
  next
    case False
    then consider "a \<le> 12" | "14 \<le> a" by linarith
    then show ?thesis
    proof cases
      case 1 then show ?thesis using assms(2,3) unfolding x_def y_def by simp
    next
      case 2 then show ?thesis unfolding x_def y_def by simp
    qed
  qed
  have d1: "x div 64 = y" "x mod 64 = e"
    using divmod64 [OF assms(3), of y] unfolding x_def by simp_all
  have d2: "y div 64 = a" "y mod 64 = b"
    using divmod64 [OF assms(2), of a] unfolding y_def by simp_all
  have d3: "x div 4096 = a" by (simp only: div4096 d1 d2)
  have "utf8_enc_char x = Inr [0xE0 + a, 0x80 + b, 0x80 + e]"
    unfolding utf8_enc_char_def using lo hi sur d1 d2 d3 by simp
  then show ?thesis unfolding x_def y_def .
qed

lemma enc4:
  assumes "a < 5" "b < 64" "e < 64" "f < 64" "a = 0 \<longrightarrow> 16 \<le> b" "a = 4 \<longrightarrow> b < 16"
  shows "utf8_enc_char (((a * 64 + b) * 64 + e) * 64 + f)
     = Inr [0xF0 + a, 0x80 + b, 0x80 + e, 0x80 + f]"
proof -
  define z where "z = a * 64 + b"
  define y where "y = z * 64 + e"
  define x where "x = y * 64 + f"
  have lo: "\<not> x < 0x10000"
  proof (cases "a = 0")
    case True then show ?thesis using assms(5) unfolding x_def y_def z_def by simp
  next
    case False then show ?thesis unfolding x_def y_def z_def by simp
  qed
  have hi: "x < 0x110000"
  proof (cases "a = 4")
    case True then show ?thesis using assms(3,4,6) unfolding x_def y_def z_def by simp
  next
    case False
    then have "a \<le> 3" using assms(1) by linarith
    then show ?thesis using assms(2-4) unfolding x_def y_def z_def by simp
  qed
  have d1: "x div 64 = y" "x mod 64 = f"
    using divmod64 [OF assms(4), of y] unfolding x_def by simp_all
  have d2: "y div 64 = z" "y mod 64 = e"
    using divmod64 [OF assms(3), of z] unfolding y_def by simp_all
  have d3: "z div 64 = a" "z mod 64 = b"
    using divmod64 [OF assms(2), of a] unfolding z_def by simp_all
  have d4: "x div 4096 = z" by (simp only: div4096 d1 d2)
  have d5: "x div 262144 = a" by (simp only: div262144 d1 d2 d3)
  have "utf8_enc_char x = Inr [0xF0 + a, 0x80 + b, 0x80 + e, 0x80 + f]"
    unfolding utf8_enc_char_def using lo hi d1 d2 d3 d4 d5 by simp
  then show ?thesis unfolding x_def y_def z_def .
qed


lemma prepend_Inr: "prepend c r = Inr cs \<longleftrightarrow> (\<exists>cs'. r = Inr cs' \<and> cs = c # cs')"
  by (cases r) (auto simp: prepend_def)

lemma utf8_enc_Cons:
  "utf8_enc_char c = Inr bs \<Longrightarrow> utf8_enc cs = Inr rest \<Longrightarrow> utf8_enc (c # cs) = Inr (bs @ rest)"
  by simp


lemma utf8_roundtrip: "utf8_dec bs = Inr cs \<Longrightarrow> utf8_enc cs = Inr bs"
proof (induction "length bs" arbitrary: bs cs rule: less_induct)
  case less
  show ?case
  proof (cases bs)
    case Nil
    with less.prems show ?thesis by simp
  next
    case (Cons b0 rest)
    note dec = less.prems [unfolded Cons]
    consider (one) "b0 < 0x80"
      | (two) "0xC2 \<le> b0" "b0 \<le> 0xDF"
      | (three) "0xE0 \<le> b0" "b0 \<le> 0xEF"
      | (four) "0xF0 \<le> b0" "b0 \<le> 0xF4"
      | (bad) "0x80 \<le> b0" "b0 < 0xC2 \<or> 0xF4 < b0"
      by linarith
    then show ?thesis
    proof cases
      case one
      with dec obtain cs' where r: "utf8_dec rest = Inr cs'" and cs: "cs = b0 # cs'"
        by (auto simp: prepend_Inr)
      have "utf8_enc cs' = Inr rest" using _ r by (rule less.hyps) (simp add: Cons)
      with enc1 [OF one] have "utf8_enc (b0 # cs') = Inr ([b0] @ rest)"
        by (rule utf8_enc_Cons)
      then show ?thesis by (simp add: cs Cons)
    next
      case two
      from two have c1: "\<not> b0 < 0x80" by simp
      from dec c1 two obtain b1 rest1 cs' where rest: "rest = b1 # rest1" and b1: "cont b1"
        and r: "utf8_dec rest1 = Inr cs'"
        and cs: "cs = ((b0 - 0xC0) * 64 + (b1 - 0x80)) # cs'"
        by (auto simp: prepend_Inr split: list.splits if_splits)
      have "utf8_enc cs' = Inr rest1" using _ r by (rule less.hyps) (simp add: Cons rest)
      moreover have "utf8_enc_char ((b0 - 0xC0) * 64 + (b1 - 0x80)) = Inr [b0, b1]"
      proof -
        have p: "2 \<le> b0 - 0xC0" "b0 - 0xC0 < 32" "b1 - 0x80 < 64"
          using two b1 by (auto simp: cont_def)
        have q: "0xC0 + (b0 - 0xC0) = b0" "0x80 + (b1 - 0x80) = b1"
          using two b1 by (auto simp: cont_def)
        from enc2 [OF p] show ?thesis by (simp only: q)
      qed
      ultimately have "utf8_enc (((b0 - 0xC0) * 64 + (b1 - 0x80)) # cs') = Inr ([b0, b1] @ rest1)"
        by (intro utf8_enc_Cons)
      then show ?thesis by (simp add: cs Cons rest)
    next
      case three
      from three have c1: "\<not> b0 < 0x80" "\<not> (0xC2 \<le> b0 \<and> b0 \<le> 0xDF)" by simp_all
      from dec c1 three obtain b1 b2 rest2 cs' where rest: "rest = b1 # b2 # rest2"
        and b1: "(if b0 = 0xE0 then 0xA0 else 0x80) \<le> b1"
                "b1 \<le> (if b0 = 0xED then 0x9F else 0xBF)"
        and b2: "cont b2"
        and r: "utf8_dec rest2 = Inr cs'"
        and cs: "cs = (((b0 - 0xE0) * 64 + (b1 - 0x80)) * 64 + (b2 - 0x80)) # cs'"
        by (auto simp: prepend_Inr split: list.splits if_splits)
      have "utf8_enc cs' = Inr rest2" using _ r by (rule less.hyps) (simp add: Cons rest)
      moreover have "utf8_enc_char (((b0 - 0xE0) * 64 + (b1 - 0x80)) * 64 + (b2 - 0x80))
           = Inr [b0, b1, b2]"
      proof -
        have p: "b0 - 0xE0 < 16" "b1 - 0x80 < 64" "b2 - 0x80 < 64"
          "b0 - 0xE0 = 0 \<longrightarrow> 32 \<le> b1 - 0x80" "b0 - 0xE0 = 13 \<longrightarrow> b1 - 0x80 < 32"
          using three b1 b2 by (auto simp: cont_def split: if_splits)
        have q: "0xE0 + (b0 - 0xE0) = b0" "0x80 + (b1 - 0x80) = b1" "0x80 + (b2 - 0x80) = b2"
          using three b1 b2 by (auto simp: cont_def split: if_splits)
        from enc3 [OF p] show ?thesis by (simp only: q)
      qed
      ultimately have "utf8_enc ((((b0 - 0xE0) * 64 + (b1 - 0x80)) * 64 + (b2 - 0x80)) # cs')
           = Inr ([b0, b1, b2] @ rest2)"
        by (intro utf8_enc_Cons)
      then show ?thesis by (simp add: cs Cons rest)
    next
      case four
      from four have c1: "\<not> b0 < 0x80" "\<not> (0xC2 \<le> b0 \<and> b0 \<le> 0xDF)"
        "\<not> (0xE0 \<le> b0 \<and> b0 \<le> 0xEF)" by simp_all
      from dec c1 four obtain b1 b2 b3 rest3 cs' where rest: "rest = b1 # b2 # b3 # rest3"
        and b1: "(if b0 = 0xF0 then 0x90 else 0x80) \<le> b1"
                "b1 \<le> (if b0 = 0xF4 then 0x8F else 0xBF)"
        and b2: "cont b2" and b3: "cont b3"
        and r: "utf8_dec rest3 = Inr cs'"
        and cs: "cs = ((((b0 - 0xF0) * 64 + (b1 - 0x80)) * 64 + (b2 - 0x80)) * 64
                        + (b3 - 0x80)) # cs'"
        by (auto simp: prepend_Inr split: list.splits if_splits)
      have "utf8_enc cs' = Inr rest3" using _ r by (rule less.hyps) (simp add: Cons rest)
      moreover have "utf8_enc_char ((((b0 - 0xF0) * 64 + (b1 - 0x80)) * 64 + (b2 - 0x80)) * 64
                        + (b3 - 0x80)) = Inr [b0, b1, b2, b3]"
      proof -
        have p: "b0 - 0xF0 < 5" "b1 - 0x80 < 64" "b2 - 0x80 < 64" "b3 - 0x80 < 64"
          "b0 - 0xF0 = 0 \<longrightarrow> 16 \<le> b1 - 0x80" "b0 - 0xF0 = 4 \<longrightarrow> b1 - 0x80 < 16"
          using four b1 b2 b3 by (auto simp: cont_def split: if_splits)
        have q: "0xF0 + (b0 - 0xF0) = b0" "0x80 + (b1 - 0x80) = b1" "0x80 + (b2 - 0x80) = b2"
          "0x80 + (b3 - 0x80) = b3"
          using four b1 b2 b3 by (auto simp: cont_def split: if_splits)
        from enc4 [OF p] show ?thesis by (simp only: q)
      qed
      ultimately have "utf8_enc (((((b0 - 0xF0) * 64 + (b1 - 0x80)) * 64 + (b2 - 0x80)) * 64
                        + (b3 - 0x80)) # cs') = Inr ([b0, b1, b2, b3] @ rest3)"
        by (intro utf8_enc_Cons)
      then show ?thesis by (simp add: cs Cons rest)
    next
      case bad
      then have "utf8_dec (b0 # rest) = Inl UnicodeDecodeError" by auto
      with dec show ?thesis by simp
    qed
  qed
qed

lemma encode_decode_utf8:
  assumes "decode_utf8 data = Inr s"
  shows "encode_utf8 s = Inr data"
proof -
  from assms have "utf8_enc s = Inr (map unat data)"
    unfolding decode_utf8_def by (rule utf8_roundtrip)
  then show ?thesis by (simp add: encode_utf8_def comp_def)
qed

section \<open>Evaluating the relay\<close>

lemmas relay_defs = main_iteration_def working_env_def HPV_ReceiveLpvRequest_def
  HPV_ConnectToCloudServer_def connectivity_test_def
  CloudServer_WaitForConnection_def HPV_ReceiveWeights_def HPV_SendShortestPath_def
  sock_recv_def ascii_def test_message_def encode_utf8_def decode_utf8_def utf8_enc_char_def
  prepend_def except_OSError_def except_send_def sendall_def py_bytes_def py_join_def

lemma handshake_ok: "HPV_ConnectToCloudServer None (\<lambda>probe. Inr probe) = Inr True"
  by (simp add: relay_defs)

lemma request_BA:
  "HPV_ReceiveLpvRequest (Inr (sock_recv 2 (ascii ''BA''))) = Inr (Some [66], Some [65])"
  by (simp add: relay_defs)

lemma request_AZ:
  "HPV_ReceiveLpvRequest (Inr (sock_recv 2 (ascii ''AZ''))) = Inr (Some [65], Some [90])"
  by (simp add: relay_defs)

lemma path_AZ: "HPV_GetShortestPath (Some [65]) (Some [90]) received_graph = Some (Inr [])"
  by (simp add: HPV_GetShortestPath_def received_graph_def CloudServer_GlobalGraph_def
      build_graph_def add_edge_def graph_get_def heappush_def heappop_def dijkstra_loop.simps
      Let_def)

section \<open>The reply when there is no path\<close>

text \<open>
  Claim C2. The claim: when the computation finds no path, the relay's reply sends the one
  byte 255. The code, for the query from \<open>A\<close> to \<open>Z\<close> on the reference topology:
  \<open>HPV_GetShortestPath\<close> returns the empty list, not \<open>None\<close>, so \<open>HPV_SendShortestPath\<close>
  takes the branch of a found path and calls \<open>sendall\<close> with no byte at all; and with
  \<open>None\<close> it would raise \<open>ValueError\<close> at \<open>bytes([-1])\<close>, which its handler does not list.
\<close>

theorem C2_no_path_reply:
  "HPV_GetShortestPath (Some [65]) (Some [90]) received_graph = Some (Inr [])
   \<and> HPV_SendShortestPath None (Some []) = Inr [[]]
   \<and> main_iteration (working_env (ascii ''AZ''))
       = ([CloudConnected, SentToLpv [], CloudClosed, LpvClosed], Completed)
   \<and> HPV_SendShortestPath None None = Inl ValueError"
proof (intro conjI)
  show "HPV_GetShortestPath (Some [65]) (Some [90]) received_graph = Some (Inr [])"
    by (rule path_AZ)
  show s: "HPV_SendShortestPath None (Some []) = Inr [[]]"
    by (simp add: relay_defs)
  show "main_iteration (working_env (ascii ''AZ''))
       = ([CloudConnected, SentToLpv [], CloudClosed, LpvClosed], Completed)"
    unfolding main_iteration_def
    by (simp add: working_env_def request_AZ handshake_ok path_AZ s HPV_ReceiveWeights_def)
  show "HPV_SendShortestPath None None = Inl ValueError"
    by (simp add: relay_defs)
qed

section \<open>Failures of the authority fetch\<close>

text \<open>
  Claim C3. The claim: whatever the outcome of the authority fetch, one iteration of the
  accept loop ends without an uncaught exception. The code, after the request \<open>BA\<close>: a
  refused connection and a handshake mismatch make \<open>HPV_ConnectToCloudServer\<close> return \<open>None\<close>,
  and the iteration then ends with the uncaught \<open>AttributeError\<close> of \<open>close()\<close> on \<open>None\<close>; an
  \<open>UnpicklingError\<close> ends it with the \<open>AttributeError\<close> raised in the handler.
\<close>

theorem C3_authority_failure:
  "HPV_ConnectToCloudServer (Some OSError) peer = Inr False
   \<and> main_iteration ((working_env (ascii ''BA''))\<lparr>cloud_connect := Some OSError\<rparr>)
       = ([], Uncaught AttributeError)
   \<and> HPV_ConnectToCloudServer None (\<lambda>probe. Inr (ascii ''no'')) = Inr False
   \<and> main_iteration ((working_env (ascii ''BA''))\<lparr>cloud_peer := (\<lambda>probe. Inr (ascii ''no''))\<rparr>)
       = ([CloudConnected], Uncaught AttributeError)
   \<and> main_iteration ((working_env (ascii ''BA''))\<lparr>cloud_weights := Inl UnpicklingError\<rparr>)
       = ([CloudConnected], Uncaught AttributeError)"
proof (intro conjI)
  show "HPV_ConnectToCloudServer (Some OSError) peer = Inr False"
    by (simp add: HPV_ConnectToCloudServer_def except_OSError_def)
  have r: "HPV_ConnectToCloudServer (Some OSError) (\<lambda>probe. Inr probe) = Inr False"
    by (simp add: HPV_ConnectToCloudServer_def except_OSError_def)
  show "main_iteration ((working_env (ascii ''BA''))\<lparr>cloud_connect := Some OSError\<rparr>)
       = ([], Uncaught AttributeError)"
    unfolding main_iteration_def
    by (simp add: working_env_def request_BA r)
  show m: "HPV_ConnectToCloudServer None (\<lambda>probe. Inr (ascii ''no'')) = Inr False"
    by (simp add: relay_defs)
  show "main_iteration ((working_env (ascii ''BA''))\<lparr>cloud_peer := (\<lambda>probe. Inr (ascii ''no''))\<rparr>)
       = ([CloudConnected], Uncaught AttributeError)"
    unfolding main_iteration_def
    by (simp add: working_env_def request_BA m)
  show "main_iteration ((working_env (ascii ''BA''))\<lparr>cloud_weights := Inl UnpicklingError\<rparr>)
       = ([CloudConnected], Uncaught AttributeError)"
    unfolding main_iteration_def
    by (simp add: working_env_def request_BA handshake_ok HPV_ReceiveWeights_def)
qed

section \<open>Requests of fewer than two bytes\<close>

text \<open>
  Claim C4. The claim: for a request of fewer than 2 bytes the parse reports failure, the
  relay opens no connection to the authority, sends no reply and does not crash. The
  code, for the one-byte request \<open>A\<close>: the parse returns \<open>(None, None)\<close>, and the iteration
  goes on to connect to the authority and fetch the graph; it sends nothing and ends
  normally. For the one-byte request \<open>0xFF\<close> the uncaught \<open>UnicodeDecodeError\<close> of
  \<open>decode\<close> ends the iteration.
\<close>

theorem C4_short_request:
  "HPV_ReceiveLpvRequest (Inr (sock_recv 2 (ascii ''A''))) = Inr (None, None)
   \<and> main_iteration (working_env (ascii ''A''))
       = ([CloudConnected, CloudClosed, LpvClosed], Completed)
   \<and> main_iteration (working_env [0xFF]) = ([], Uncaught UnicodeDecodeError)"
proof (intro conjI)
  show r: "HPV_ReceiveLpvRequest (Inr (sock_recv 2 (ascii ''A''))) = Inr (None, None)"
    by (simp add: relay_defs)
  have s: "HPV_SendShortestPath None (Some [None]) = Inr []"
    by (simp add: relay_defs)
  show "main_iteration (working_env (ascii ''A''))
       = ([CloudConnected, CloudClosed, LpvClosed], Completed)"
    unfolding main_iteration_def
    by (simp add: working_env_def r handshake_ok HPV_ReceiveWeights_def same_node_query s)
  have "HPV_ReceiveLpvRequest (Inr (sock_recv 2 [0xFF])) = Inl UnicodeDecodeError"
    by (simp add: relay_defs)
  then show "main_iteration (working_env [0xFF]) = ([], Uncaught UnicodeDecodeError)"
    unfolding main_iteration_def by (simp add: working_env_def)
qed

section \<open>The graph on the wire\<close>








section \<open>The connectivity handshake\<close>

lemma ascii_run_dec: "utf8_dec (replicate n 65) = Inr (replicate n 65)"
  by (induction n) (simp_all add: prepend_def)

lemma ascii_run_decode: "decode_utf8 (replicate n 0x41) = Inr (replicate n 65)"
  by (simp add: decode_utf8_def ascii_run_dec)

lemma handshake_echo:
  assumes "length probe \<le> 1024" and "decode_utf8 probe = Inr message"
  shows "CloudServer_WaitForConnection (Inr (sock_recv 1024 probe)) None = Inr (probe, True)"
proof -
  have enc: "encode_utf8 message = Inr probe" using assms(2) by (rule encode_decode_utf8)
  have rcv: "sock_recv 1024 probe = probe" using assms(1) by (simp add: sock_recv_def)
  show ?thesis by (simp add: CloudServer_WaitForConnection_def rcv assms(2) enc)
qed

lemma session_stream:
  assumes "length probe \<le> 1024" and "decode_utf8 probe = Inr message"
  shows "CloudServer_session dumps graph probe = probe @ dumps graph"
  using handshake_echo [OF assms]
  by (simp add: CloudServer_session_def CloudServer_SendWeights_def)

lemma echo_read_alone:
  assumes "length probe \<le> 1024" and "decode_utf8 probe = Inr message"
  shows "authority_peer (length probe) dumps graph probe = Inr probe"
  using assms(1) by (simp add: authority_peer_def session_stream [OF assms] sock_recv_def)

lemma test_message_bytes: "encode_utf8 test_message = Inr (ascii ''Test connection'')"
  by (simp add: encode_utf8_def test_message_def ascii_def utf8_enc_char_def)

lemma test_message_decode: "decode_utf8 (ascii ''Test connection'') = Inr test_message"
  by (simp add: decode_utf8_def ascii_def test_message_def prepend_def)

text \<open>
  The authority sends the serialised graph right after the echo. When the initiator's
  read returns the echo together with the first byte of a serialisation that starts with
  \<open>0x80\<close>, its \<open>decode\<close> raises \<open>UnicodeDecodeError\<close>, which no handler of
  \<open>HPV_ConnectToCloudServer\<close> lists.
\<close>

lemma echo_read_with_graph:
  assumes "dumps graph = 0x80 # rest"
  shows "HPV_ConnectToCloudServer None (authority_peer 16 dumps graph) = Inl UnicodeDecodeError"
proof -
  have len: "length (ascii ''Test connection'') \<le> 1024" by (simp add: ascii_def)
  have "CloudServer_session dumps graph (ascii ''Test connection'')
      = ascii ''Test connection'' @ 0x80 # rest"
    using session_stream [OF len test_message_decode, of dumps graph] assms by simp
  then have "authority_peer 16 dumps graph (ascii ''Test connection'')
      = Inr (ascii ''Test connection'' @ [0x80])"
    by (simp add: authority_peer_def sock_recv_def ascii_def)
  moreover have "decode_utf8 (ascii ''Test connection'' @ [0x80]) = Inl UnicodeDecodeError"
    by (simp add: decode_utf8_def ascii_def prepend_def)
  ultimately show ?thesis
    by (simp add: HPV_ConnectToCloudServer_def connectivity_test_def test_message_bytes
        except_OSError_def)
qed

text \<open>
  Claim C9, as stated, fails. The authority decodes the probe as UTF-8 before it sends it
  back: for the probe made of the byte \<open>0xFF\<close> the handshake step raises
  \<open>UnicodeDecodeError\<close> and echoes nothing. It reads the probe with one \<open>recv(1024)\<close>: of
  a probe of 1025 bytes it sends back the first 1024.
\<close>

theorem C9_probe_counterexample:
  "CloudServer_WaitForConnection (Inr (sock_recv 1024 [0xFF])) None = Inl UnicodeDecodeError
   \<and> CloudServer_WaitForConnection (Inr (sock_recv 1024 (replicate 1025 0x41))) None
       = Inr (replicate 1024 0x41, True)"
proof
  show "CloudServer_WaitForConnection (Inr (sock_recv 1024 [0xFF])) None = Inl UnicodeDecodeError"
    by (simp add: CloudServer_WaitForConnection_def sock_recv_def decode_utf8_def
        except_OSError_def)
  have rcv: "sock_recv 1024 (replicate 1025 (0x41 :: byte)) = replicate 1024 0x41"
    by (simp add: sock_recv_def)
  have dec: "decode_utf8 (replicate 1024 0x41) = Inr (replicate 1024 65)"
    by (rule ascii_run_decode)
  have enc: "encode_utf8 (replicate 1024 65) = Inr (replicate 1024 0x41)"
    using dec by (rule encode_decode_utf8)
  show "CloudServer_WaitForConnection (Inr (sock_recv 1024 (replicate 1025 0x41))) None
       = Inr (replicate 1024 0x41, True)"
    by (simp only: rcv CloudServer_WaitForConnection_def sum.case dec enc option.case)
qed

text \<open>
  Claim C9, amended. For every probe of at most 1024 bytes that is well-formed UTF-8, the
  authority's handshake step sends back exactly the bytes of the probe; and when the
  initiator's read returns these bytes and nothing of the serialised graph that follows
  them on the stream, the comparison that the initiator makes between the decoded echo
  and the message it has sent succeeds.
\<close>

theorem C9_handshake_echo:
  assumes "length probe \<le> 1024" and "decode_utf8 probe = Inr message"
  shows "CloudServer_WaitForConnection (Inr (sock_recv 1024 probe)) None = Inr (probe, True)
       \<and> (\<forall>(dumps :: 'g \<Rightarrow> byte list) graph.
             authority_peer (length probe) dumps graph probe = Inr probe
             \<and> connectivity_test message (authority_peer (length probe) dumps graph) = Inr True)"
proof (intro conjI allI)
  show "CloudServer_WaitForConnection (Inr (sock_recv 1024 probe)) None = Inr (probe, True)"
    using assms by (rule handshake_echo)
  fix dumps :: "'g \<Rightarrow> byte list" and graph
  have enc: "encode_utf8 message = Inr probe" using assms(2) by (rule encode_decode_utf8)
  show rd: "authority_peer (length probe) dumps graph probe = Inr probe"
    using assms by (rule echo_read_alone)
  show "connectivity_test message (authority_peer (length probe) dumps graph) = Inr True"
    by (simp add: connectivity_test_def enc rd assms(2))
qed

text \<open>The hypotheses hold for the relay's own probe.\<close>

theorem C9_handshake_echo_witness:
  "length (ascii ''Test connection'') \<le> 1024
   \<and> decode_utf8 (ascii ''Test connection'') = Inr test_message
   \<and> CloudServer_WaitForConnection (Inr (sock_recv 1024 (ascii ''Test connection''))) None
       = Inr (ascii ''Test connection'', True)
   \<and> (\<forall>(dumps :: char weights \<Rightarrow> byte list) graph.
         authority_peer (length (ascii ''Test connection'')) dumps graph
             (ascii ''Test connection'') = Inr (ascii ''Test connection'')
         \<and> connectivity_test test_message
             (authority_peer (length (ascii ''Test connection'')) dumps graph) = Inr True)"
proof -
  have h1: "length (ascii ''Test connection'') \<le> 1024" by (simp add: ascii_def)
  note r = C9_handshake_echo [OF h1 test_message_decode, where ?'g = "char weights"]
  show ?thesis by (rule conjI [OF h1 conjI [OF test_message_decode r]])
qed

end
